theory Spec2Isabelle
  imports Main "HOL-Library.Multiset" "HOL-Library.Sublist" "HOL-Library.List_Lexorder"
    "HOL-Library.Product_Lexorder"
begin

section \<open>Strings, numbers and path helpers of the platform\<close>

text \<open>
  File names are \<^typ>\<open>string\<close>s. The names come from a directory listing, so they
  contain no path separator; \<open>extname\<close> and \<open>basename\<close> below are Node's
  \<open>path.extname\<close> and \<open>path.basename\<close> on such names.

  JavaScript numbers are modelled as \<^typ>\<open>nat\<close>: every number of the program is a
  file number or the allocation cursor, a non-negative integer. A JavaScript number
  is a double, which holds every integer up to \<open>2 ^ 53\<close> exactly. \<open>Number_str\<close>
  below is the value of the digits, which is what \<open>Number\<close> returns for a digit
  string of value at most \<open>2 ^ 53\<close>; for a longer one \<open>Number\<close> returns the
  nearest double instead. A statement about the number that a file name parses to is
  therefore made for names within that bound. The cursor starts at the start number
  and moves by one for every candidate and every reserved number it passes, so it
  stays far below the bound, and far below \<open>10 ^ 21\<close>, where \<open>String\<close> changes to
  exponent notation.

  A character is a byte. The script looks at characters in three places only: the
  digits of a base name, the dot of an extension and the ASCII letters of the
  recognised extensions; every other character is carried along unchanged.
\<close>

definition isDigit :: "char \<Rightarrow> bool" where
  "isDigit c = (c \<in> set ''0123456789'')"

definition digitValue :: "char \<Rightarrow> nat" where
  "digitValue c = of_char c - 48"

definition digitChar :: "nat \<Rightarrow> char" where
  "digitChar d = ''0123456789'' ! (d mod 10)"

text \<open>\<open>Number(s)\<close> on a string of decimal digits.\<close>

definition Number_str :: "string \<Rightarrow> nat" where
  "Number_str s = foldl (\<lambda>acc c. 10 * acc + digitValue c) 0 s"

text \<open>\<open>String(n)\<close> on a non-negative integer: its decimal digits.\<close>

function String_num :: "nat \<Rightarrow> string" where
  "String_num n = (if n < 10 then [digitChar n] else String_num (n div 10) @ [digitChar (n mod 10)])"
  by pat_completeness auto
termination
  by (relation "measure (\<lambda>n. n)") auto

declare String_num.simps [simp del]

text \<open>\<open>s.padStart(w, "0")\<close>.\<close>

definition padStart :: "nat \<Rightarrow> string \<Rightarrow> string" where
  "padStart w s = replicate (w - length s) (CHR ''0'') @ s"

text \<open>\<open>s.toLowerCase()\<close>: the ASCII capitals change, every other character stays.\<close>

definition lowerChar :: "char \<Rightarrow> char" where
  "lowerChar c =
     (case map_of (zip ''ABCDEFGHIJKLMNOPQRSTUVWXYZ'' ''abcdefghijklmnopqrstuvwxyz'') c of
        None \<Rightarrow> c
      | Some d \<Rightarrow> d)"

definition toLowerCase :: "string \<Rightarrow> string" where
  "toLowerCase s = map lowerChar s"

text \<open>
  \<open>path.extname\<close>: from the last dot of the name to its end; empty when the name has
  no dot, when its only dot is the first character, and for the name \<open>..\<close>.
\<close>

definition extname :: "string \<Rightarrow> string" where
  "extname p =
     (if CHR ''.'' \<notin> set p then []
      else let startDot = length p - length (takeWhile (\<lambda>c. c \<noteq> CHR ''.'') (rev p)) - 1
           in if startDot = 0 \<or> p = ''..'' then [] else drop startDot p)"

text \<open>
  \<open>path.basename(p, sfx)\<close>: the name without the suffix when the name ends with it
  and is longer than it.
\<close>

definition basename :: "string \<Rightarrow> string \<Rightarrow> string" where
  "basename p sfx =
     (if sfx \<noteq> [] \<and> length sfx \<le> length p
      then (if sfx = p then []
            else if drop (length p - length sfx) p = sfx
                 then take (length p - length sfx) p
                 else p)
      else p)"

section \<open>Configuration\<close>

text \<open>
  The constants \<open>PROTECT_MIN\<close>, \<open>PROTECT_MAX\<close>, \<open>START_NUMBER\<close> and \<open>PAD\<close> of the
  script, gathered in a record; \<open>script_config\<close> holds the values the script sets.
\<close>

record config =
  PROTECT_MIN :: nat
  PROTECT_MAX :: nat
  START_NUMBER :: nat
  PAD :: nat

definition script_config :: config where
  "script_config = \<lparr>PROTECT_MIN = 1, PROTECT_MAX = 19, START_NUMBER = 20, PAD = 0\<rparr>"

definition exts :: "string list" where
  "exts = [''.jpg'', ''.jpeg'', ''.png'', ''.webp'', ''.gif'', ''.avif'']"

definition LABEL :: string where
  "LABEL = [CHR 0xE2, CHR 0x9D, CHR 0xA4, CHR 0xEF, CHR 0xB8, CHR 0x8F]"

section \<open>Classification of file names\<close>

definition isPhoto :: "string \<Rightarrow> bool" where
  "isPhoto fileName = (toLowerCase (extname fileName) \<in> set exts)"

definition parseLeadingNumber :: "string \<Rightarrow> nat option" where
  "parseLeadingNumber fileName =
     (let base = basename fileName (extname fileName)
      in if \<not> (base \<noteq> [] \<and> list_all isDigit base) then None else Some (Number_str base))"

definition fmtNum :: "config \<Rightarrow> nat \<Rightarrow> string" where
  "fmtNum cfg n = (if PAD cfg = 0 then String_num n else padStart (PAD cfg) (String_num n))"

text \<open>The reserved numbers are a JavaScript \<open>Set\<close>: a list without repetition, in insertion order.\<close>

definition set_add :: "nat \<Rightarrow> nat list \<Rightarrow> nat list" where
  "set_add n s = (if n \<in> set s then s else s @ [n])"

definition getReservedNumbers :: "string list \<Rightarrow> nat list" where
  "getReservedNumbers files =
     foldl (\<lambda>reserved f. case parseLeadingNumber f of None \<Rightarrow> reserved | Some n \<Rightarrow> set_add n reserved)
       [] files"

definition isProtectedFile :: "config \<Rightarrow> string \<Rightarrow> bool" where
  "isProtectedFile cfg fileName =
     (case parseLeadingNumber fileName of
        None \<Rightarrow> False
      | Some n \<Rightarrow> PROTECT_MIN cfg \<le> n \<and> n \<le> PROTECT_MAX cfg)"

definition isAlreadyNumbered :: "string \<Rightarrow> bool" where
  "isAlreadyNumbered fileName = (parseLeadingNumber fileName \<noteq> None)"

section \<open>The directory and its renames\<close>

text \<open>
  The photo directory is the list of its entries, in the order a listing returns
  them: name, kind of entry and payload (what the entry holds; it identifies a file
  through renames). No two entries of a directory have the same name. Only a regular
  file answers \<open>isFile()\<close>. \<open>DanglingLink\<close> is a symbolic link that does not
  resolve, and \<open>Other\<close> stands for what is left: a symbolic link that resolves, a
  socket, a pipe, a device. The directory itself is there and can be searched: a
  listing does not fail.
\<close>

datatype kind = RegularFile | Directory | DanglingLink | Other

type_synonym 'c dirent = "string \<times> kind \<times> 'c"

type_synonym 'c directory = "'c dirent list"

definition isFile :: "'c dirent \<Rightarrow> bool" where
  "isFile d = (fst (snd d) = RegularFile)"

definition getAllPhotoFiles :: "'c directory \<Rightarrow> string list" where
  "getAllPhotoFiles dir = filter isPhoto (map fst (filter isFile dir))"

text \<open>
  \<open>exists(name)\<close> is \<open>fs.existsSync\<close> on the path of the name. It follows
  symbolic links: it answers \<open>true\<close> when the directory has an entry of that name
  that is not a dangling link, and \<open>false\<close> for a dangling link as for a name that
  is not there.
\<close>

definition exists_name :: "'c directory \<Rightarrow> string \<Rightarrow> bool" where
  "exists_name dir name = (\<exists>d\<in>set dir. fst d = name \<and> fst (snd d) \<noteq> DanglingLink)"

text \<open>
  \<open>fs.renameSync\<close>: it throws when the source is missing, replaces an existing
  target (a symbolic link itself, not what it points to), and refuses to put a file in
  the place of a directory or a directory in the place of anything that exists. The
  script only ever renames regular files.
\<close>

datatype error = ENOENT | EISDIR | ENOTDIR | ENOTEMPTY

definition renameSync :: "'c directory \<Rightarrow> string \<Rightarrow> string \<Rightarrow> error + 'c directory" where
  "renameSync dir a b =
     (case find (\<lambda>d. fst d = a) dir of
        None \<Rightarrow> Inl ENOENT
      | Some src \<Rightarrow>
          if a = b then Inr dir
          else let moved = map (\<lambda>d. if fst d = a then (b, snd d) else d) (filter (\<lambda>d. fst d \<noteq> b) dir)
               in (case find (\<lambda>d. fst d = b) dir of
                     None \<Rightarrow> Inr moved
                   | Some dst \<Rightarrow>
                       if fst (snd src) = Directory
                       then Inl (if fst (snd dst) = Directory then ENOTEMPTY else ENOTDIR)
                       else if fst (snd dst) = Directory then Inl EISDIR
                       else Inr moved))"

text \<open>
  A loop of renames. An exception leaves the directory as it is at that moment, so a
  failure carries the directory reached.
\<close>

fun renameAll :: "'c directory \<Rightarrow> (string \<times> string) list \<Rightarrow> (error \<times> 'c directory) + 'c directory" where
  "renameAll dir [] = Inr dir"
| "renameAll dir ((a, b) # rest) =
     (case renameSync dir a b of
        Inl e \<Rightarrow> Inl (e, dir)
      | Inr dir' \<Rightarrow> renameAll dir' rest)"

text \<open>
  \<open>toTempName\<close> reads the clock and draws a random number. Both are inputs here:
  \<open>now\<close> is \<open>Date.now()\<close> and \<open>rnd\<close> the hexadecimal digits of \<open>Math.random()\<close>
  after the point.
\<close>

definition hexDigit :: "nat \<Rightarrow> char" where
  "hexDigit d = ''0123456789abcdef'' ! (d mod 16)"

definition toTempName :: "nat \<Rightarrow> nat list \<Rightarrow> string \<Rightarrow> string" where
  "toTempName now rnd original =
     ''__tmp__'' @ String_num now @ ''__'' @ map hexDigit rnd @ ''__'' @ original"

text \<open>
  A rename pair \<open>{from, to}\<close> is the pair \<open>(from, to)\<close>, and \<open>{from, tmp, to}\<close> the
  triple \<open>(from, tmp, to)\<close>. \<open>draws i\<close> is what the clock and the random generator
  give at the \<open>i\<close>-th call of \<open>toTempName\<close>.
\<close>

definition tmpPairs :: "(nat \<Rightarrow> nat \<times> nat list) \<Rightarrow> (string \<times> string) list \<Rightarrow> (string \<times> string \<times> string) list" where
  "tmpPairs draws pairs =
     map (\<lambda>(i, p). (fst p, toTempName (fst (draws i)) (snd (draws i)) (fst p), snd p))
       (zip [0..<length pairs] pairs)"

definition renameSafely ::
  "(nat \<Rightarrow> nat \<times> nat list) \<Rightarrow> 'c directory \<Rightarrow> (string \<times> string) list \<Rightarrow> (error \<times> 'c directory) + 'c directory" where
  "renameSafely draws dir pairs =
     (let tps = tmpPairs draws pairs
      in case renameAll dir (map (\<lambda>p. (fst p, fst (snd p))) tps) of
           Inl e \<Rightarrow> Inl e
         | Inr dir1 \<Rightarrow> renameAll dir1 (map (\<lambda>p. (fst (snd p), snd (snd p))) tps))"

section \<open>Sorting\<close>

text \<open>
  \<open>Array.prototype.sort\<close> with a comparator is a stable sort; for a comparator that
  orders consistently its result is the one stable sorted arrangement, which insertion
  from the right computes.
\<close>

fun insert_cmp :: "('a \<Rightarrow> 'a \<Rightarrow> int) \<Rightarrow> 'a \<Rightarrow> 'a list \<Rightarrow> 'a list" where
  "insert_cmp cmp x [] = [x]"
| "insert_cmp cmp x (y # ys) = (if cmp x y \<le> 0 then x # y # ys else y # insert_cmp cmp x ys)"

fun sort_cmp :: "('a \<Rightarrow> 'a \<Rightarrow> int) \<Rightarrow> 'a list \<Rightarrow> 'a list" where
  "sort_cmp cmp [] = []"
| "sort_cmp cmp (x # xs) = insert_cmp cmp x (sort_cmp cmp xs)"

text \<open>
  \<open>naturalSort\<close> hands both names to \<open>localeCompare\<close> with numeric collation and base
  sensitivity. The collation belongs to the platform, so it is the parameter \<open>lc\<close>.
\<close>

definition naturalSort :: "(string \<Rightarrow> string \<Rightarrow> int) \<Rightarrow> string \<Rightarrow> string \<Rightarrow> int" where
  "naturalSort lc a b = lc a b"

text \<open>
  A collation of that kind, to run the examples with: a name is read as its runs of
  digits, taken by value, and its other characters, taken without case.
\<close>

fun collationKey :: "nat option \<Rightarrow> string \<Rightarrow> (nat \<times> nat) list" where
  "collationKey None [] = []"
| "collationKey (Some n) [] = [(0, n)]"
| "collationKey acc (c # cs) =
     (if isDigit c
      then collationKey (Some (10 * (case acc of None \<Rightarrow> 0 | Some n \<Rightarrow> n) + digitValue c)) cs
      else (case acc of None \<Rightarrow> [] | Some n \<Rightarrow> [(0, n)]) @ (1, of_char (lowerChar c)) # collationKey None cs)"

definition numericBaseCompare :: "string \<Rightarrow> string \<Rightarrow> int" where
  "numericBaseCompare a b =
     (if collationKey None a < collationKey None b then - 1
      else if collationKey None a = collationKey None b then 0 else 1)"

section \<open>The manifest\<close>

record item =
  src :: string
  label :: string

text \<open>The path reference of a manifest item, \<open>./photos/\<close> and the name.\<close>

definition srcOf :: "string \<Rightarrow> string" where
  "srcOf name = ''./photos/'' @ name"

definition buildPhotoStream :: "(string \<Rightarrow> string \<Rightarrow> int) \<Rightarrow> string list \<Rightarrow> item list" where
  "buildPhotoStream lc files =
     (let numbered = List.map_filter (\<lambda>f. map_option (\<lambda>n. (f, n)) (parseLeadingNumber f)) files;
          other = filter (\<lambda>f. parseLeadingNumber f = None) files;
          numbered' = sort_cmp (\<lambda>a b. int (snd a) - int (snd b)) numbered;
          other' = sort_cmp (naturalSort lc) other;
          ordered = map fst numbered' @ other'
      in map (\<lambda>name. \<lparr>src = srcOf name, label = LABEL\<rparr>) ordered)"

section \<open>Allocation of new names\<close>

text \<open>\<open>while (reservedNumbers.has(nextNum)) nextNum++\<close>\<close>

function skipReserved :: "nat list \<Rightarrow> nat \<Rightarrow> nat" where
  "skipReserved reserved n = (if n \<in> set reserved then skipReserved reserved (n + 1) else n)"
  by pat_completeness auto
termination
proof (relation "measure (\<lambda>(reserved, n). length (filter (\<lambda>m. n \<le> m) reserved))")
  show "wf (measure (\<lambda>(reserved, n). length (filter (\<lambda>m. n \<le> m) reserved)))"
    by simp
next
  fix reserved :: "nat list" and n :: nat
  assume mem: "n \<in> set reserved"
  have "filter (\<lambda>m. n + 1 \<le> m) reserved = filter (\<lambda>m. n + 1 \<le> m) (filter (\<lambda>m. n \<le> m) reserved)"
    by (simp add: conj_commute) (rule filter_cong, auto)
  moreover have "length (filter (\<lambda>m. n + 1 \<le> m) (filter (\<lambda>m. n \<le> m) reserved))
      < length (filter (\<lambda>m. n \<le> m) reserved)"
    by (rule length_filter_less[of n]) (use mem in auto)
  ultimately show "((reserved, n + 1), (reserved, n)) \<in> measure (\<lambda>(reserved, n). length (filter (\<lambda>m. n \<le> m) reserved))"
    by simp
qed

declare skipReserved.simps [simp del]

text \<open>
  The state of the allocation loop: the cursor \<open>nextNum\<close>, the set \<open>reservedNumbers\<close>
  and the list \<open>renamePairs\<close>. \<open>allocStep\<close> is one turn of the loop over \<open>toRenumber\<close>;
  its first branch is the one that ends in \<open>continue\<close>.
\<close>

record alloc_state =
  nextNum :: nat
  reservedNumbers :: "nat list"
  renamePairs :: "(string \<times> string) list"

definition allocStep :: "config \<Rightarrow> 'c directory \<Rightarrow> alloc_state \<Rightarrow> string \<Rightarrow> alloc_state" where
  "allocStep cfg dir st from_name =
     (let n = skipReserved (reservedNumbers st) (nextNum st);
          ext = toLowerCase (extname from_name);
          to_name = fmtNum cfg n @ ext
      in if exists_name dir to_name
         then st\<lparr>nextNum := n + 1, reservedNumbers := set_add n (reservedNumbers st)\<rparr>
         else st\<lparr>nextNum := n + 1, reservedNumbers := set_add n (reservedNumbers st),
                 renamePairs := renamePairs st @ [(from_name, to_name)]\<rparr>)"

definition allocLoop :: "config \<Rightarrow> 'c directory \<Rightarrow> alloc_state \<Rightarrow> string list \<Rightarrow> alloc_state" where
  "allocLoop cfg dir st candidates = foldl (allocStep cfg dir) st candidates"

text \<open>The new name of a candidate that is given the number \<open>n\<close>, as the loop builds it.\<close>

definition targetName :: "config \<Rightarrow> nat \<Rightarrow> string \<Rightarrow> string" where
  "targetName cfg n from_name = fmtNum cfg n @ toLowerCase (extname from_name)"

text \<open>
  The allocation as the specification words it: a cursor starts at the floor; for each
  candidate in order it moves past every reserved number, its value is assigned and
  added to the reserved numbers, and it moves on by one. \<open>assigns_in_order\<close> says
  that the numbers \<open>ns\<close> are the ones assigned that way.
\<close>

fun assigns_in_order :: "nat \<Rightarrow> nat set \<Rightarrow> nat list \<Rightarrow> bool" where
  "assigns_in_order cursor reserved [] = True"
| "assigns_in_order cursor reserved (n # ns) =
     (cursor \<le> n \<and> (\<forall>m\<in>{cursor..<n}. m \<in> reserved) \<and> n \<notin> reserved
      \<and> assigns_in_order (n + 1) (insert n reserved) ns)"

section \<open>The script\<close>

text \<open>
  The body of the script. \<open>toRenumber\<close> is the sorted list of candidates,
  \<open>initialReserved\<close> the set \<open>reservedNumbers\<close> before the loop, \<open>allocation\<close> the
  state after the loop, and \<open>main\<close> the whole run: scan, allocation, renames if there
  are any, rescan and manifest.
\<close>

definition toRenumber :: "(string \<Rightarrow> string \<Rightarrow> int) \<Rightarrow> 'c directory \<Rightarrow> string list" where
  "toRenumber lc dir =
     sort_cmp (naturalSort lc) (filter (\<lambda>f. \<not> isAlreadyNumbered f) (getAllPhotoFiles dir))"

definition initialReserved :: "'c directory \<Rightarrow> nat list" where
  "initialReserved dir = getReservedNumbers (filter isAlreadyNumbered (getAllPhotoFiles dir))"

definition allocation :: "config \<Rightarrow> (string \<Rightarrow> string \<Rightarrow> int) \<Rightarrow> 'c directory \<Rightarrow> alloc_state" where
  "allocation cfg lc dir =
     allocLoop cfg dir
       \<lparr>nextNum = START_NUMBER cfg, reservedNumbers = initialReserved dir, renamePairs = []\<rparr>
       (toRenumber lc dir)"

text \<open>
  What a run leaves: the directory, the manifest items, and the two figures of the
  log, the number of protected files and the rename map.
\<close>

record 'c run =
  finalDir :: "'c directory"
  items :: "item list"
  protectedCount :: nat
  renameMap :: "(string \<times> string) list"

definition main ::
  "config \<Rightarrow> (string \<Rightarrow> string \<Rightarrow> int) \<Rightarrow> (nat \<Rightarrow> nat \<times> nat list) \<Rightarrow> 'c directory \<Rightarrow> (error \<times> 'c directory) + 'c run" where
  "main cfg lc draws dir =
     (let allFiles = getAllPhotoFiles dir;
          protectedFiles = filter (isProtectedFile cfg) allFiles;
          pairs = renamePairs (allocation cfg lc dir)
      in case (if pairs \<noteq> [] then renameSafely draws dir pairs else Inr dir) of
           Inl e \<Rightarrow> Inl e
         | Inr dir' \<Rightarrow>
             Inr \<lparr>finalDir = dir',
                  items = buildPhotoStream lc (getAllPhotoFiles dir'),
                  protectedCount = length protectedFiles,
                  renameMap = pairs\<rparr>)"

text \<open>
  The directory that a batch of renames, or a run, leaves behind, whether it completed
  or stopped at an exception.
\<close>

definition dirOf :: "(error \<times> 'c directory) + 'c directory \<Rightarrow> 'c directory" where
  "dirOf r = (case r of Inl (e, dir) \<Rightarrow> dir | Inr dir \<Rightarrow> dir)"

definition dirAfter :: "(error \<times> 'c directory) + 'c run \<Rightarrow> 'c directory" where
  "dirAfter r = (case r of Inl (e, dir) \<Rightarrow> dir | Inr run \<Rightarrow> finalDir run)"

section \<open>Digits, numbers and names\<close>

lemma digitValue_digitChar: "d < 10 \<Longrightarrow> digitValue (digitChar d) = d"
proof -
  assume "d < 10"
  then have "d \<in> {0,1,2,3,4,5,6,7,8,9}" by auto
  then show ?thesis by (auto simp: digitValue_def digitChar_def)
qed

lemma isDigit_digitChar: "isDigit (digitChar d)"
  unfolding isDigit_def digitChar_def by (rule nth_mem) simp

lemma Number_str_snoc: "Number_str (s @ [c]) = 10 * Number_str s + digitValue c"
  by (simp add: Number_str_def)

lemma Number_str_String_num: "Number_str (String_num n) = n"
proof (induction n rule: String_num.induct)
  case (1 n)
  show ?case
  proof (cases "n < 10")
    case True
    then show ?thesis by (simp add: String_num.simps[of n] Number_str_def digitValue_digitChar)
  next
    case False
    have "Number_str (String_num n) = 10 * Number_str (String_num (n div 10)) + digitValue (digitChar (n mod 10))"
      using False by (simp add: String_num.simps[of n] Number_str_snoc)
    also have "\<dots> = 10 * (n div 10) + n mod 10"
      using 1[OF False] by (simp add: digitValue_digitChar)
    finally show ?thesis by simp
  qed
qed

lemma String_num_digits: "list_all isDigit (String_num n)"
proof (induction n rule: String_num.induct)
  case (1 n)
  show ?case
  proof (cases "n < 10")
    case True
    then show ?thesis by (simp add: String_num.simps[of n] isDigit_digitChar)
  next
    case False
    then show ?thesis using 1[OF False] by (simp add: String_num.simps[of n] isDigit_digitChar)
  qed
qed

lemma String_num_nonempty: "String_num n \<noteq> []"
  by (subst String_num.simps) simp

lemma Number_str_zeros: "Number_str (replicate k (CHR ''0'') @ s) = Number_str s"
proof -
  have "foldl (\<lambda>acc c. 10 * acc + digitValue c) 0 (replicate k (CHR ''0'')) = 0"
    by (induction k) (simp_all add: digitValue_def)
  then show ?thesis by (simp add: Number_str_def)
qed

lemma fmtNum_digits: "list_all isDigit (fmtNum cfg n)"
proof -
  have z: "isDigit (CHR ''0'')" by (simp add: isDigit_def)
  have "\<forall>x\<in>set (String_num n). isDigit x"
    using String_num_digits[of n] by (simp add: list_all_iff)
  then show ?thesis by (auto simp: fmtNum_def padStart_def list_all_iff z)
qed

lemma fmtNum_nonempty: "fmtNum cfg n \<noteq> []"
  by (simp add: fmtNum_def padStart_def String_num_nonempty)

lemma Number_str_fmtNum: "Number_str (fmtNum cfg n) = n"
  by (simp add: fmtNum_def padStart_def Number_str_zeros Number_str_String_num)

lemma isDigit_not_dot: "isDigit c \<Longrightarrow> c \<noteq> CHR ''.''"
  by (auto simp: isDigit_def)

lemma extname_dot:
  assumes "ds \<noteq> []" "CHR ''.'' \<notin> set r" "hd ds \<noteq> CHR ''.''"
  shows "extname (ds @ CHR ''.'' # r) = CHR ''.'' # r"
proof -
  let ?p = "ds @ CHR ''.'' # r"
  have "takeWhile (\<lambda>c. c \<noteq> CHR ''.'') (rev r @ CHR ''.'' # rev ds)
      = rev r @ takeWhile (\<lambda>c. c \<noteq> CHR ''.'') (CHR ''.'' # rev ds)"
    by (rule takeWhile_append2) (use assms(2) in auto)
  then have "takeWhile (\<lambda>c. c \<noteq> CHR ''.'') (rev ?p) = rev r"
    by simp
  then have sd: "length ?p - length (takeWhile (\<lambda>c. c \<noteq> CHR ''.'') (rev ?p)) - 1 = length ds"
    by simp
  have ne: "?p \<noteq> ''..''"
  proof
    assume "?p = ''..''"
    then have "hd ?p = CHR ''.''" by simp
    with assms(1,3) show False by simp
  qed
  have mem: "CHR ''.'' \<in> set ?p" by simp
  show ?thesis
    unfolding extname_def Let_def sd using mem ne assms(1) by simp
qed

lemma exts_shape: "e \<in> set exts \<Longrightarrow> \<exists>r. e = CHR ''.'' # r \<and> CHR ''.'' \<notin> set r"
  by (auto simp: exts_def)

lemma extname_digits_ext:
  assumes "ds \<noteq> []" "list_all isDigit ds" "e \<in> set exts"
  shows "extname (ds @ e) = e"
proof -
  from assms(1,2) have "isDigit (hd ds)" by (cases ds) auto
  then have "hd ds \<noteq> CHR ''.''" by (rule isDigit_not_dot)
  moreover obtain r where "e = CHR ''.'' # r" "CHR ''.'' \<notin> set r"
    using exts_shape[OF assms(3)] by blast
  ultimately show ?thesis using assms(1) by (simp add: extname_dot)
qed

lemma basename_strip:
  assumes "ds \<noteq> []" "e \<noteq> []"
  shows "basename (ds @ e) e = ds"
  using assms by (simp add: basename_def)

lemma exts_nonempty: "e \<in> set exts \<Longrightarrow> e \<noteq> []"
  using exts_shape by blast

lemma parseLeadingNumber_target:
  assumes "e \<in> set exts"
  shows "parseLeadingNumber (fmtNum cfg n @ e) = Some n"
  using assms
  by (simp add: parseLeadingNumber_def extname_digits_ext basename_strip exts_nonempty
      fmtNum_digits fmtNum_nonempty Number_str_fmtNum)

lemma basename_cases: "basename p s = [] \<or> basename p s = p \<or> (\<exists>k. 0 < k \<and> basename p s = take k p)"
proof (cases "s \<noteq> [] \<and> length s \<le> length p \<and> s \<noteq> p \<and> drop (length p - length s) p = s")
  case True
  then have "0 < length p - length s" by (cases "length p - length s") auto
  moreover from True have "basename p s = take (length p - length s) p"
    by (simp add: basename_def)
  ultimately show ?thesis by blast
next
  case False
  then show ?thesis by (auto simp: basename_def)
qed

lemma parseLeadingNumber_hd:
  assumes "parseLeadingNumber p = Some n"
  shows "p \<noteq> [] \<and> isDigit (hd p)"
proof -
  define b where "b = basename p (extname p)"
  have b: "b \<noteq> []" "list_all isDigit b"
    using assms by (auto simp: parseLeadingNumber_def b_def Let_def split: if_splits)
  then have hb: "isDigit (hd b)" by (cases b) auto
  from basename_cases[of p "extname p"] b(1)
  have "b = p \<or> (\<exists>k. 0 < k \<and> b = take k p)" by (auto simp: b_def)
  then show ?thesis
  proof
    assume "b = p" with b hb show ?thesis by simp
  next
    assume "\<exists>k. 0 < k \<and> b = take k p"
    then obtain k where k: "0 < k" "b = take k p" by blast
    with b(1) have "p \<noteq> []" by auto
    moreover from k this have "hd b = hd p" by (cases p) (auto simp: take_Cons')
    ultimately show ?thesis using hb by simp
  qed
qed

lemma toTempName_not_numbered: "parseLeadingNumber (toTempName now rnd original) = None"
proof (cases "parseLeadingNumber (toTempName now rnd original)")
  case None then show ?thesis .
next
  case (Some n)
  from parseLeadingNumber_hd[OF this] show ?thesis
    by (simp add: toTempName_def isDigit_def)
qed

lemma lowerChar_dot: "(lowerChar c = CHR ''.'') = (c = CHR ''.'')"
  by (auto simp: lowerChar_def split: option.splits if_splits)

lemma extname_shape: "extname p = [] \<or> (\<exists>r. extname p = CHR ''.'' # r \<and> CHR ''.'' \<notin> set r)"
proof (cases "CHR ''.'' \<in> set p")
  case False
  then show ?thesis by (simp add: extname_def)
next
  case True
  then obtain a r where p: "p = a @ CHR ''.'' # r" and r: "CHR ''.'' \<notin> set r"
    by (auto dest: split_list_last)
  have "takeWhile (\<lambda>c. c \<noteq> CHR ''.'') (rev r @ CHR ''.'' # rev a)
      = rev r @ takeWhile (\<lambda>c. c \<noteq> CHR ''.'') (CHR ''.'' # rev a)"
    by (rule takeWhile_append2) (use r in auto)
  then have "length p - length (takeWhile (\<lambda>c. c \<noteq> CHR ''.'') (rev p)) - 1 = length a"
    by (simp add: p)
  then have "extname p = [] \<or> extname p = drop (length a) p"
    by (auto simp: extname_def Let_def)
  then show ?thesis using p r by auto
qed

lemma lower_ext_shape:
  "toLowerCase (extname p) = [] \<or> (\<exists>r. toLowerCase (extname p) = CHR ''.'' # r \<and> CHR ''.'' \<notin> set r)"
proof -
  from extname_shape[of p] show ?thesis
  proof
    assume "extname p = []"
    then show ?thesis by (simp add: toLowerCase_def)
  next
    assume "\<exists>r. extname p = CHR ''.'' # r \<and> CHR ''.'' \<notin> set r"
    then obtain r where e: "extname p = CHR ''.'' # r" and r: "CHR ''.'' \<notin> set r" by blast
    have d: "lowerChar (CHR ''.'') = CHR ''.''" by (simp add: lowerChar_dot)
    have "CHR ''.'' \<notin> set (map lowerChar r)"
    proof
      assume "CHR ''.'' \<in> set (map lowerChar r)"
      then obtain x where x: "x \<in> set r" "lowerChar x = CHR ''.''" by auto
      from x(2) have "x = CHR ''.''" by (simp only: lowerChar_dot)
      with x(1) r show False by simp
    qed
    then show ?thesis by (simp add: toLowerCase_def e d)
  qed
qed

lemma extname_no_dot: "CHR ''.'' \<notin> set p \<Longrightarrow> extname p = []"
  by (simp add: extname_def)

lemma parseLeadingNumber_targetName: "parseLeadingNumber (targetName cfg n f) = Some n"
proof -
  have dg: "list_all isDigit (fmtNum cfg n)" and ne: "fmtNum cfg n \<noteq> []"
    by (rule fmtNum_digits, rule fmtNum_nonempty)
  from lower_ext_shape[of f] show ?thesis
  proof
    assume e: "toLowerCase (extname f) = []"
    have "CHR ''.'' \<notin> set (fmtNum cfg n)"
      using dg isDigit_not_dot by (auto simp: list_all_iff)
    then have "extname (fmtNum cfg n) = []" by (rule extname_no_dot)
    then show ?thesis
      using dg ne by (simp add: targetName_def e parseLeadingNumber_def basename_def Number_str_fmtNum)
  next
    assume "\<exists>r. toLowerCase (extname f) = CHR ''.'' # r \<and> CHR ''.'' \<notin> set r"
    then obtain r where e: "toLowerCase (extname f) = CHR ''.'' # r" and r: "CHR ''.'' \<notin> set r"
      by blast
    from dg ne have "isDigit (hd (fmtNum cfg n))" by (cases "fmtNum cfg n") auto
    then have "hd (fmtNum cfg n) \<noteq> CHR ''.''" by (rule isDigit_not_dot)
    then have "extname (fmtNum cfg n @ CHR ''.'' # r) = CHR ''.'' # r"
      using ne r by (simp add: extname_dot)
    then show ?thesis
      using dg ne by (simp add: targetName_def e parseLeadingNumber_def basename_strip Number_str_fmtNum)
  qed
qed

section \<open>The allocation loop\<close>

lemma skipReserved_ge: "n \<le> skipReserved reserved n"
  by (induction reserved n rule: skipReserved.induct) (subst skipReserved.simps, auto)

lemma skipReserved_free: "skipReserved reserved n \<notin> set reserved"
  by (induction reserved n rule: skipReserved.induct) (subst skipReserved.simps, auto)

lemma skipReserved_between: "n \<le> m \<Longrightarrow> m < skipReserved reserved n \<Longrightarrow> m \<in> set reserved"
proof (induction reserved n rule: skipReserved.induct)
  case (1 reserved n)
  show ?case
  proof (cases "n \<in> set reserved")
    case True
    show ?thesis
    proof (cases "m = n")
      case True with \<open>n \<in> set reserved\<close> show ?thesis by simp
    next
      case False
      with "1.prems" have "n + 1 \<le> m" by simp
      moreover have "m < skipReserved reserved (n + 1)"
        using "1.prems"(2) True by (subst (asm) skipReserved.simps) simp
      ultimately show ?thesis using "1.IH"[OF True] by blast
    qed
  next
    case False
    then have "skipReserved reserved n = n" by (subst skipReserved.simps) simp
    with "1.prems" show ?thesis by simp
  qed
qed

lemma set_set_add: "set (set_add n s) = insert n (set s)"
  by (auto simp: set_add_def)

lemma allocStep_nextNum:
  "nextNum (allocStep cfg dir st c) = skipReserved (reservedNumbers st) (nextNum st) + 1"
  by (simp add: allocStep_def Let_def)

lemma allocStep_reserved:
  "set (reservedNumbers (allocStep cfg dir st c))
     = insert (skipReserved (reservedNumbers st) (nextNum st)) (set (reservedNumbers st))"
  by (simp add: allocStep_def Let_def set_set_add)

lemma allocStep_pairs:
  "renamePairs (allocStep cfg dir st c) =
     (let n = skipReserved (reservedNumbers st) (nextNum st)
      in if exists_name dir (targetName cfg n c) then renamePairs st
         else renamePairs st @ [(c, targetName cfg n c)])"
  by (simp add: allocStep_def Let_def targetName_def)

lemma allocLoop_Cons: "allocLoop cfg dir st (c # cs) = allocLoop cfg dir (allocStep cfg dir st c) cs"
  by (simp add: allocLoop_def)

lemma allocLoop_Nil: "allocLoop cfg dir st [] = st"
  by (simp add: allocLoop_def)

lemma allocLoop_pairs:
  "\<exists>fs ns. renamePairs (allocLoop cfg dir st cs)
              = renamePairs st @ map2 (\<lambda>f n. (f, targetName cfg n f)) fs ns
     \<and> length fs = length ns \<and> subseq fs cs
     \<and> sorted_wrt (<) ns
     \<and> (\<forall>n\<in>set ns. nextNum st \<le> n \<and> n \<notin> set (reservedNumbers st))
     \<and> (\<forall>(f, n)\<in>set (zip fs ns). \<not> exists_name dir (targetName cfg n f))"
proof (induction cs arbitrary: st)
  case Nil
  have "renamePairs (allocLoop cfg dir st []) = renamePairs st @ map2 (\<lambda>f n. (f, targetName cfg n f)) [] []"
    by (simp add: allocLoop_Nil)
  then show ?case by (intro exI[of _ "[]"]) simp
next
  case (Cons c cs)
  define n where "n = skipReserved (reservedNumbers st) (nextNum st)"
  define st1 where "st1 = allocStep cfg dir st c"
  obtain fs ns where IH:
    "renamePairs (allocLoop cfg dir st1 cs) = renamePairs st1 @ map2 (\<lambda>f n. (f, targetName cfg n f)) fs ns"
    "length fs = length ns" "subseq fs cs" "sorted_wrt (<) ns"
    "\<forall>m\<in>set ns. nextNum st1 \<le> m \<and> m \<notin> set (reservedNumbers st1)"
    "\<forall>(f, m)\<in>set (zip fs ns). \<not> exists_name dir (targetName cfg m f)"
    using Cons.IH[of st1] by blast
  have nn: "nextNum st1 = n + 1" and rs: "set (reservedNumbers st1) = insert n (set (reservedNumbers st))"
    by (simp_all add: st1_def n_def allocStep_nextNum allocStep_reserved)
  have nge: "nextNum st \<le> n" and nfree: "n \<notin> set (reservedNumbers st)"
    by (simp_all add: n_def skipReserved_ge skipReserved_free)
  have later: "\<forall>m\<in>set ns. n < m \<and> nextNum st \<le> m \<and> m \<notin> set (reservedNumbers st)"
    using IH(5) nn rs nge by auto
  show ?case
  proof (cases "exists_name dir (targetName cfg n c)")
    case True
    then have "renamePairs st1 = renamePairs st"
      by (simp add: st1_def allocStep_pairs n_def)
    then have "renamePairs (allocLoop cfg dir st (c # cs))
        = renamePairs st @ map2 (\<lambda>f n. (f, targetName cfg n f)) fs ns"
      using IH(1) by (simp add: allocLoop_Cons st1_def)
    moreover have "subseq fs (c # cs)" using IH(3) by (rule list_emb_Cons)
    ultimately show ?thesis using IH(2,4,6) later by blast
  next
    case False
    then have "renamePairs st1 = renamePairs st @ [(c, targetName cfg n c)]"
      by (simp add: st1_def allocStep_pairs n_def)
    then have "renamePairs (allocLoop cfg dir st (c # cs))
        = renamePairs st @ map2 (\<lambda>f n. (f, targetName cfg n f)) (c # fs) (n # ns)"
      using IH(1) by (simp add: allocLoop_Cons st1_def)
    moreover have "subseq (c # fs) (c # cs)" using IH(3) by simp
    moreover have "sorted_wrt (<) (n # ns)" using IH(4) later by simp
    moreover have "\<forall>m\<in>set (n # ns). nextNum st \<le> m \<and> m \<notin> set (reservedNumbers st)"
      using later nge nfree by simp
    moreover have "\<forall>(f, m)\<in>set (zip (c # fs) (n # ns)). \<not> exists_name dir (targetName cfg m f)"
      using IH(6) False by simp
    moreover have "length (c # fs) = length (n # ns)" using IH(2) by simp
    ultimately show ?thesis by blast
  qed
qed

section \<open>Sorting with a comparator\<close>

lemma mset_insert_cmp: "mset (insert_cmp cmp x xs) = add_mset x (mset xs)"
  by (induction xs) auto

lemma mset_sort_cmp: "mset (sort_cmp cmp xs) = mset xs"
  by (induction xs) (auto simp: mset_insert_cmp)

lemma set_sort_cmp: "set (sort_cmp cmp xs) = set xs"
  by (rule mset_eq_setD) (rule mset_sort_cmp)

lemma length_sort_cmp: "length (sort_cmp cmp xs) = length xs"
  by (rule mset_eq_length) (rule mset_sort_cmp)

lemma set_insert_cmp: "set (insert_cmp cmp x xs) = insert x (set xs)"
  by (induction xs) auto

lemma sorted_insert_cmp:
  assumes total: "\<And>a b. cmp a b \<le> 0 \<or> cmp b a \<le> 0"
    and trans: "\<And>a b c. cmp a b \<le> 0 \<Longrightarrow> cmp b c \<le> 0 \<Longrightarrow> cmp a c \<le> 0"
    and "sorted_wrt (\<lambda>a b. cmp a b \<le> 0) xs"
  shows "sorted_wrt (\<lambda>a b. cmp a b \<le> 0) (insert_cmp cmp x xs)"
  using assms(3)
proof (induction xs)
  case Nil
  then show ?case by simp
next
  case (Cons y ys)
  show ?case
  proof (cases "cmp x y \<le> 0")
    case True
    have "\<forall>z\<in>set ys. cmp x z \<le> 0"
    proof
      fix z assume "z \<in> set ys"
      with Cons.prems have "cmp y z \<le> 0" by simp
      with True show "cmp x z \<le> 0" by (rule trans)
    qed
    with True Cons.prems show ?thesis by simp
  next
    case False
    with total[of x y] have yx: "cmp y x \<le> 0" by simp
    have "sorted_wrt (\<lambda>a b. cmp a b \<le> 0) (insert_cmp cmp x ys)"
      using Cons.IH Cons.prems by simp
    moreover have "\<forall>z\<in>set (insert_cmp cmp x ys). cmp y z \<le> 0"
      using yx Cons.prems by (simp add: set_insert_cmp)
    ultimately show ?thesis using False by simp
  qed
qed

lemma sorted_sort_cmp:
  assumes "\<And>a b. cmp a b \<le> 0 \<or> cmp b a \<le> 0"
    and "\<And>a b c. cmp a b \<le> 0 \<Longrightarrow> cmp b c \<le> 0 \<Longrightarrow> cmp a c \<le> 0"
  shows "sorted_wrt (\<lambda>a b. cmp a b \<le> 0) (sort_cmp cmp xs)"
proof (induction xs)
  case Nil
  show ?case by simp
next
  case (Cons x xs)
  show ?case using sorted_insert_cmp[OF assms Cons.IH] by simp
qed

section \<open>Renames in the directory\<close>

lemma renameSync_Inr:
  assumes "renameSync dir a b = Inr dir'"
  shows "dir' = (if a = b then dir
                 else map (\<lambda>d. if fst d = a then (b, snd d) else d) (filter (\<lambda>d. fst d \<noteq> b) dir))"
proof (cases "find (\<lambda>d. fst d = a) dir")
  case None
  with assms show ?thesis by (simp add: renameSync_def)
next
  case (Some src)
  show ?thesis
  proof (cases "a = b")
    case True
    with assms Some show ?thesis by (simp add: renameSync_def)
  next
    case False
    show ?thesis
    proof (cases "find (\<lambda>d. fst d = b) dir")
      case None
      with assms Some False show ?thesis by (simp add: renameSync_def Let_def)
    next
      case (Some dst)
      with assms \<open>find (\<lambda>d. fst d = a) dir = Some src\<close> False show ?thesis
        by (simp add: renameSync_def Let_def split: if_splits)
    qed
  qed
qed

lemma renameSync_back:
  assumes "renameSync dir a b = Inr dir'" "d \<in> set dir'"
  shows "(fst d = b \<and> (a, snd d) \<in> set dir) \<or> (fst d \<noteq> a \<and> d \<in> set dir)"
proof (cases "a = b")
  case True
  with renameSync_Inr[OF assms(1)] have "dir' = dir" by simp
  with assms(2) have d: "d \<in> set dir" by simp
  show ?thesis
  proof (cases "fst d = a")
    case False
    with d show ?thesis by simp
  next
    case a: True
    then have "(a, snd d) = d" by (simp add: prod_eq_iff)
    with d a True show ?thesis by simp
  qed
next
  case False
  let ?g = "\<lambda>d. if fst d = a then (b, snd d) else d"
  from renameSync_Inr[OF assms(1)] False
  have "dir' = map ?g (filter (\<lambda>d. fst d \<noteq> b) dir)" by simp
  with assms(2) have "d \<in> ?g ` set (filter (\<lambda>d. fst d \<noteq> b) dir)" by simp
  then obtain d0 where d0: "d0 \<in> set (filter (\<lambda>d. fst d \<noteq> b) dir)" "d = ?g d0" by (rule imageE)
  from d0(1) have m: "d0 \<in> set dir" "fst d0 \<noteq> b" by simp_all
  show ?thesis
  proof (cases "fst d0 = a")
    case True
    then have "d = (b, snd d0)" using d0(2) by simp
    moreover have "(a, snd d0) \<in> set dir" using m(1) True by (metis prod.collapse)
    ultimately show ?thesis by simp
  next
    case False
    then have "d = d0" using d0(2) by simp
    with m False show ?thesis by simp
  qed
qed

lemma renameSync_keeps:
  assumes "renameSync dir a b = Inr dir'" "d \<in> set dir" "fst d \<noteq> a" "fst d \<noteq> b"
  shows "d \<in> set dir'"
proof (cases "a = b")
  case True
  with renameSync_Inr[OF assms(1)] assms(2) show ?thesis by simp
next
  case False
  let ?g = "\<lambda>d. if fst d = a then (b, snd d) else d"
  from renameSync_Inr[OF assms(1)] False
  have eq: "dir' = map ?g (filter (\<lambda>d. fst d \<noteq> b) dir)" by simp
  have "d \<in> set (filter (\<lambda>d. fst d \<noteq> b) dir)" using assms(2,4) by simp
  then have "?g d \<in> ?g ` set (filter (\<lambda>d. fst d \<noteq> b) dir)" by (rule imageI)
  moreover have "?g d = d" using assms(3) by simp
  ultimately show ?thesis by (simp add: eq)
qed

lemma renameAll_back:
  assumes "renameAll dir rs = Inr dir'" "d \<in> set dir'"
  shows "fst d \<in> snd ` set rs \<or> (fst d \<notin> fst ` set rs \<and> d \<in> set dir)"
  using assms
proof (induction rs arbitrary: dir)
  case Nil
  then show ?case by simp
next
  case (Cons r rs)
  obtain a b where r: "r = (a, b)" by (cases r)
  from Cons.prems(1) obtain dir1 where s: "renameSync dir a b = Inr dir1"
    and rest: "renameAll dir1 rs = Inr dir'"
    by (auto simp: r split: sum.splits)
  from Cons.IH[OF rest Cons.prems(2)]
  have "fst d \<in> snd ` set rs \<or> (fst d \<notin> fst ` set rs \<and> d \<in> set dir1)" .
  then show ?case
  proof
    assume "fst d \<in> snd ` set rs" then show ?thesis by simp
  next
    assume h: "fst d \<notin> fst ` set rs \<and> d \<in> set dir1"
    from renameSync_back[OF s, of d] h
    have "(fst d = b \<and> (a, snd d) \<in> set dir) \<or> (fst d \<noteq> a \<and> d \<in> set dir)" by simp
    then show ?thesis using h by (auto simp: r)
  qed
qed

lemma renameAll_keeps:
  assumes "d \<in> set dir" "fst d \<notin> fst ` set rs" "fst d \<notin> snd ` set rs"
  shows "d \<in> set (dirOf (renameAll dir rs))"
  using assms
proof (induction rs arbitrary: dir)
  case Nil
  then show ?case by (simp add: dirOf_def)
next
  case (Cons r rs)
  obtain a b where r: "r = (a, b)" by (cases r)
  show ?case
  proof (cases "renameSync dir a b")
    case (Inl e)
    then show ?thesis using Cons.prems(1) by (simp add: r dirOf_def)
  next
    case (Inr dir1)
    have "d \<in> set dir1"
      using renameSync_keeps[OF Inr Cons.prems(1)] Cons.prems(2,3) by (simp add: r)
    then have "d \<in> set (dirOf (renameAll dir1 rs))"
      using Cons.IH Cons.prems(2,3) by simp
    then show ?thesis using Inr by (simp add: r)
  qed
qed

lemma tmpPairs_from: "map fst (tmpPairs draws pairs) = map fst pairs"
proof -
  have z: "map snd (zip [0..<length pairs] pairs) = pairs" by (rule map_snd_zip) simp
  have "map (fst \<circ> snd) (zip [0..<length pairs] pairs) = map fst (map snd (zip [0..<length pairs] pairs))"
    by (simp only: map_map)
  then have "map (fst \<circ> snd) (zip [0..<length pairs] pairs) = map fst pairs"
    by (simp only: z)
  moreover have "map fst (tmpPairs draws pairs) = map (fst \<circ> snd) (zip [0..<length pairs] pairs)"
    by (simp add: tmpPairs_def case_prod_unfold comp_def)
  ultimately show ?thesis by (rule trans[rotated])
qed

lemma tmpPairs_to: "map (\<lambda>p. snd (snd p)) (tmpPairs draws pairs) = map snd pairs"
proof -
  have z: "map snd (zip [0..<length pairs] pairs) = pairs" by (rule map_snd_zip) simp
  have "map (snd \<circ> snd) (zip [0..<length pairs] pairs) = map snd (map snd (zip [0..<length pairs] pairs))"
    by (simp only: map_map)
  then have "map (snd \<circ> snd) (zip [0..<length pairs] pairs) = map snd pairs"
    by (simp only: z)
  moreover have "map (\<lambda>p. snd (snd p)) (tmpPairs draws pairs) = map (snd \<circ> snd) (zip [0..<length pairs] pairs)"
    by (simp add: tmpPairs_def case_prod_unfold comp_def)
  ultimately show ?thesis by (rule trans[rotated])
qed

lemma tmpPairs_tmp:
  assumes "p \<in> set (tmpPairs draws pairs)"
  shows "\<exists>now rnd. fst (snd p) = toTempName now rnd (fst p)"
proof -
  from assms obtain i q where "p = (fst q, toTempName (fst (draws i)) (snd (draws i)) (fst q), snd q)"
    by (auto simp: tmpPairs_def)
  then have "fst (snd p) = toTempName (fst (draws i)) (snd (draws i)) (fst p)" by simp
  then show ?thesis by blast
qed

lemma tmpPairs_tmp_not_numbered:
  assumes "p \<in> set (tmpPairs draws pairs)"
  shows "parseLeadingNumber (fst (snd p)) = None"
proof -
  from tmpPairs_tmp[OF assms] obtain now rnd where "fst (snd p) = toTempName now rnd (fst p)"
    by blast
  then show ?thesis by (simp add: toTempName_not_numbered)
qed

lemma phase_names:
  fixes draws pairs
  defines "tps \<equiv> tmpPairs draws pairs"
  shows "fst ` set (map (\<lambda>p. (fst p, fst (snd p))) tps) = fst ` set pairs"
    and "snd ` set (map (\<lambda>p. (fst p, fst (snd p))) tps) = (\<lambda>p. fst (snd p)) ` set tps"
    and "fst ` set (map (\<lambda>p. (fst (snd p), snd (snd p))) tps) = (\<lambda>p. fst (snd p)) ` set tps"
    and "snd ` set (map (\<lambda>p. (fst (snd p), snd (snd p))) tps) = snd ` set pairs"
proof -
  have "fst ` set tps = set (map fst tps)" by simp
  also have "\<dots> = fst ` set pairs" by (simp only: tps_def tmpPairs_from set_map)
  finally show "fst ` set (map (\<lambda>p. (fst p, fst (snd p))) tps) = fst ` set pairs"
    by (simp add: image_image)
  have "(\<lambda>p. snd (snd p)) ` set tps = set (map (\<lambda>p. snd (snd p)) tps)" by simp
  also have "\<dots> = snd ` set pairs" by (simp only: tps_def tmpPairs_to set_map)
  finally show "snd ` set (map (\<lambda>p. (fst (snd p), snd (snd p))) tps) = snd ` set pairs"
    by (simp add: image_image)
  show "snd ` set (map (\<lambda>p. (fst p, fst (snd p))) tps) = (\<lambda>p. fst (snd p)) ` set tps"
    by (simp add: image_image)
  show "fst ` set (map (\<lambda>p. (fst (snd p), snd (snd p))) tps) = (\<lambda>p. fst (snd p)) ` set tps"
    by (simp add: image_image)
qed

lemma renameSafely_back:
  assumes "renameSafely draws dir pairs = Inr dir'" "d \<in> set dir'"
  shows "fst d \<in> snd ` set pairs \<or> (fst d \<notin> fst ` set pairs \<and> d \<in> set dir)"
proof -
  let ?tps = "tmpPairs draws pairs"
  let ?r1 = "map (\<lambda>p. (fst p, fst (snd p))) ?tps"
  let ?r2 = "map (\<lambda>p. (fst (snd p), snd (snd p))) ?tps"
  from assms(1) obtain dir1 where
    p1: "renameAll dir ?r1 = Inr dir1" and p2: "renameAll dir1 ?r2 = Inr dir'"
    by (auto simp: renameSafely_def Let_def split: sum.splits)
  from renameAll_back[OF p2 assms(2)]
  have "fst d \<in> snd ` set ?r2 \<or> (fst d \<notin> fst ` set ?r2 \<and> d \<in> set dir1)" .
  then show ?thesis
  proof
    assume "fst d \<in> snd ` set ?r2"
    then show ?thesis unfolding phase_names(4) ..
  next
    assume h: "fst d \<notin> fst ` set ?r2 \<and> d \<in> set dir1"
    then have nt: "fst d \<notin> snd ` set ?r1" unfolding phase_names(2,3) by simp
    from h have "d \<in> set dir1" ..
    from renameAll_back[OF p1 this] nt
    have "fst d \<notin> fst ` set ?r1 \<and> d \<in> set dir" by blast
    then show ?thesis unfolding phase_names(1) ..
  qed
qed

lemma renameSafely_keeps:
  assumes "d \<in> set dir" "fst d \<notin> fst ` set pairs" "fst d \<notin> snd ` set pairs"
    and "parseLeadingNumber (fst d) \<noteq> None"
  shows "d \<in> set (dirOf (renameSafely draws dir pairs))"
proof -
  let ?tps = "tmpPairs draws pairs"
  let ?r1 = "map (\<lambda>p. (fst p, fst (snd p))) ?tps"
  let ?r2 = "map (\<lambda>p. (fst (snd p), snd (snd p))) ?tps"
  have tmp: "fst d \<notin> (\<lambda>p. fst (snd p)) ` set ?tps"
  proof
    assume "fst d \<in> (\<lambda>p. fst (snd p)) ` set ?tps"
    then obtain p where "p \<in> set ?tps" "fst d = fst (snd p)" by (rule imageE)
    with tmpPairs_tmp_not_numbered[of p draws pairs] assms(4) show False by simp
  qed
  have a1: "fst d \<notin> fst ` set ?r1" using assms(2) unfolding phase_names(1) .
  have b1: "fst d \<notin> snd ` set ?r1" using tmp unfolding phase_names(2) .
  have a2: "fst d \<notin> fst ` set ?r2" using tmp unfolding phase_names(3) .
  have b2: "fst d \<notin> snd ` set ?r2" using assms(3) unfolding phase_names(4) .
  have k1: "d \<in> set (dirOf (renameAll dir ?r1))"
    by (rule renameAll_keeps[OF assms(1) a1 b1])
  show ?thesis
  proof (cases "renameAll dir ?r1")
    case (Inl e)
    with k1 show ?thesis by (simp add: renameSafely_def Let_def)
  next
    case (Inr dir1)
    with k1 have "d \<in> set dir1" by (simp add: dirOf_def)
    from renameAll_keeps[OF this a2 b2] Inr show ?thesis
      by (simp add: renameSafely_def Let_def)
  qed
qed

section \<open>Formatting and parsing of numbers\<close>

lemma String_num_hd: "0 < n \<Longrightarrow> hd (String_num n) \<noteq> CHR ''0''"
proof (induction n rule: String_num.induct)
  case (1 n)
  show ?case
  proof (cases "n < 10")
    case True
    with "1.prems" have "n \<in> {1,2,3,4,5,6,7,8,9}" by auto
    then show ?thesis by (auto simp: String_num.simps[of n] digitChar_def)
  next
    case False
    then have "0 < n div 10" by simp
    from "1.IH"[OF False this] False show ?thesis
      by (simp add: String_num.simps[of n] String_num_nonempty)
  qed
qed

lemma String_num_zero: "String_num 0 = ''0''"
  by (simp add: String_num.simps digitChar_def)

lemma parse_digits_ext:
  assumes "ds \<noteq> []" "list_all isDigit ds" "toLowerCase e \<in> set exts"
  shows "parseLeadingNumber (ds @ e) = Some (Number_str ds)"
proof -
  from exts_shape[OF assms(3)] obtain r where r: "toLowerCase e = CHR ''.'' # r" "CHR ''.'' \<notin> set r"
    by blast
  then obtain c e' where e: "e = c # e'" "lowerChar c = CHR ''.''" "map lowerChar e' = r"
    by (auto simp: toLowerCase_def)
  from e(2) have c: "c = CHR ''.''" by (simp only: lowerChar_dot)
  have "CHR ''.'' \<notin> set e'"
  proof
    assume "CHR ''.'' \<in> set e'"
    then have "lowerChar (CHR ''.'') \<in> set (map lowerChar e')" by simp
    moreover have "lowerChar (CHR ''.'') = CHR ''.''" by (simp add: lowerChar_dot)
    ultimately show False using r(2) e(3) by simp
  qed
  moreover from assms(1,2) have "isDigit (hd ds)" by (cases ds) auto
  then have "hd ds \<noteq> CHR ''.''" by (rule isDigit_not_dot)
  ultimately have "extname (ds @ e) = e"
    using assms(1) by (simp add: e(1) c extname_dot)
  moreover have "basename (ds @ e) e = ds"
    using assms(1) by (simp add: basename_strip e(1))
  ultimately show ?thesis using assms(1,2) by (simp add: parseLeadingNumber_def)
qed

lemma getReservedNumbers_snoc:
  "getReservedNumbers (files @ [f]) =
     (case parseLeadingNumber f of None \<Rightarrow> getReservedNumbers files
      | Some n \<Rightarrow> set_add n (getReservedNumbers files))"
  by (simp add: getReservedNumbers_def split: option.splits)

lemma getReservedNumbers_Nil: "getReservedNumbers [] = []"
  by (simp add: getReservedNumbers_def)

lemma getReservedNumbers_set:
  "set (getReservedNumbers files) = {n. \<exists>f\<in>set files. parseLeadingNumber f = Some n}"
proof (induction files rule: rev_induct)
  case Nil
  show ?case by (simp add: getReservedNumbers_Nil)
next
  case (snoc f files)
  show ?case
  proof (cases "parseLeadingNumber f")
    case None
    with snoc show ?thesis by (auto simp: getReservedNumbers_snoc)
  next
    case (Some n)
    with snoc show ?thesis by (auto simp: getReservedNumbers_snoc set_add_def)
  qed
qed

lemma getReservedNumbers_distinct: "distinct (getReservedNumbers files)"
proof (induction files rule: rev_induct)
  case Nil
  show ?case by (simp add: getReservedNumbers_Nil)
next
  case (snoc f files)
  then show ?case by (cases "parseLeadingNumber f") (auto simp: getReservedNumbers_snoc set_add_def)
qed

lemma initialReserved_set:
  "set (initialReserved dir) = {n. \<exists>f\<in>set (getAllPhotoFiles dir). parseLeadingNumber f = Some n}"
  by (auto simp: initialReserved_def getReservedNumbers_set isAlreadyNumbered_def)

lemma length_fmtNum: "length (fmtNum cfg n) = max (PAD cfg) (length (String_num n))"
  by (auto simp: fmtNum_def padStart_def)

lemma fmtNum_zeros: "fmtNum cfg n = replicate (PAD cfg - length (String_num n)) (CHR ''0'') @ String_num n"
  by (simp add: fmtNum_def padStart_def)

text \<open>
  C8. Formatting follows the padding width. For every width and every number the
  result is the decimal digits of the number with as many zeros in front as it takes
  to reach the width, and none when the digits are that long already: its length is
  the larger of the width and the number of digits, and it reads back as the number.
  With width 0 the result is the decimal digits alone. The decimal digits of a number
  are digits that read back as the number and start with a zero only for the number
  0. With width 3 the number 20 is written \<open>020\<close>.
\<close>

theorem fmtNum_padding:
  "fmtNum cfg n = replicate (PAD cfg - length (String_num n)) (CHR ''0'') @ String_num n
   \<and> length (fmtNum cfg n) = max (PAD cfg) (length (String_num n))
   \<and> (PAD cfg = 0 \<longrightarrow> fmtNum cfg n = String_num n)
   \<and> list_all isDigit (String_num n)
   \<and> Number_str (String_num n) = n
   \<and> (hd (String_num n) = CHR ''0'') = (n = 0)
   \<and> Number_str (fmtNum cfg n) = n
   \<and> fmtNum (cfg\<lparr>PAD := 3\<rparr>) 20 = ''020''"
proof -
  have a: "fmtNum (cfg\<lparr>PAD := 3\<rparr>) 20 = ''020''"
    by (simp add: fmtNum_def padStart_def String_num.simps digitChar_def)
  have b: "PAD cfg = 0 \<longrightarrow> fmtNum cfg n = String_num n"
    by (simp add: fmtNum_def)
  have c: "(hd (String_num n) = CHR ''0'') = (n = 0)"
    using String_num_hd[of n] by (cases "n = 0") (simp_all add: String_num_zero)
  show ?thesis
  proof (intro conjI)
    show "fmtNum cfg n = replicate (PAD cfg - length (String_num n)) (CHR ''0'') @ String_num n"
      by (rule fmtNum_zeros)
    show "length (fmtNum cfg n) = max (PAD cfg) (length (String_num n))"
      by (rule length_fmtNum)
    show "PAD cfg = 0 \<longrightarrow> fmtNum cfg n = String_num n" by (rule b)
    show "list_all isDigit (String_num n)" by (rule String_num_digits)
    show "Number_str (String_num n) = n" by (rule Number_str_String_num)
    show "(hd (String_num n) = CHR ''0'') = (n = 0)" by (rule c)
    show "Number_str (fmtNum cfg n) = n" by (rule Number_str_fmtNum)
    show "fmtNum (cfg\<lparr>PAD := 3\<rparr>) 20 = ''020''" by (rule a)
  qed
qed

text \<open>
  The number 20 with the widths 3 and 0, and the number 105 with the widths 5 and 2:
  a width below the number of digits cuts nothing off.
\<close>

theorem fmtNum_padding_witness:
  "fmtNum (script_config\<lparr>PAD := 3\<rparr>) 20 = ''020''
   \<and> PAD script_config = 0
   \<and> fmtNum script_config 20 = ''20''
   \<and> fmtNum (script_config\<lparr>PAD := 5\<rparr>) 105 = ''00105''
   \<and> fmtNum (script_config\<lparr>PAD := 2\<rparr>) 105 = ''105''
   \<and> length (fmtNum (script_config\<lparr>PAD := 5\<rparr>) 105) = 5"
proof -
  have z: "PAD script_config = 0" by (simp add: script_config_def)
  have s: "String_num 20 = ''20''" "String_num 105 = ''105''"
    by (simp_all add: String_num.simps digitChar_def)
  from fmtNum_padding[of script_config 20] fmtNum_padding[of "script_config\<lparr>PAD := 5\<rparr>" 105]
    fmtNum_padding[of "script_config\<lparr>PAD := 2\<rparr>" 105]
  show ?thesis
    by (simp add: z s numeral_2_eq_2)
qed

text \<open>
  C9. A name made of digits and a photo extension parses to the value of the digits,
  and zeros in front change nothing: \<open>007.jpg\<close> parses to 7 and is protected exactly
  when 7 lies in the protected range, \<open>0020.png\<close> parses to 20 and reserves 20. This
  is stated for digits whose value is at most \<open>2 ^ 53\<close>, the integers a JavaScript
  number holds exactly. Such a name is protected exactly when the value lies in the
  protected range, and among the files handed to \<open>getReservedNumbers\<close> it reserves
  the value. The reserved numbers are the numbers that the names parse to, each once;
  for a run they are the numbers of the scanned photos. Two such names whose digits
  have the same value are protected alike and reserve the same number.
\<close>

theorem parseLeadingNumber_by_value:
  assumes "ds \<noteq> []" "list_all isDigit ds" "toLowerCase e \<in> set exts" "Number_str ds \<le> 2 ^ 53"
    and "ds' \<noteq> []" "list_all isDigit ds'" "toLowerCase e' \<in> set exts" "Number_str ds' \<le> 2 ^ 53"
  shows "parseLeadingNumber ''007.jpg'' = Some 7
     \<and> isProtectedFile cfg ''007.jpg'' = (PROTECT_MIN cfg \<le> 7 \<and> 7 \<le> PROTECT_MAX cfg)
     \<and> parseLeadingNumber ''0020.png'' = Some 20
     \<and> 20 \<in> set (getReservedNumbers (files @ ''0020.png'' # files'))
     \<and> parseLeadingNumber (ds @ e) = Some (Number_str ds)
     \<and> parseLeadingNumber (replicate k (CHR ''0'') @ ds @ e) = Some (Number_str ds)
     \<and> isProtectedFile cfg (ds @ e)
          = (PROTECT_MIN cfg \<le> Number_str ds \<and> Number_str ds \<le> PROTECT_MAX cfg)
     \<and> Number_str ds \<in> set (getReservedNumbers (files @ (ds @ e) # files'))
     \<and> set (getReservedNumbers files) = {n. \<exists>f\<in>set files. parseLeadingNumber f = Some n}
     \<and> distinct (getReservedNumbers files)
     \<and> set (initialReserved dir) = {n. \<exists>f\<in>set (getAllPhotoFiles dir). parseLeadingNumber f = Some n}
     \<and> (Number_str ds = Number_str ds' \<longrightarrow>
          isProtectedFile cfg (ds @ e) = isProtectedFile cfg (ds' @ e')
          \<and> getReservedNumbers (files @ [ds @ e]) = getReservedNumbers (files @ [ds' @ e'])
          \<and> set (getReservedNumbers (files @ (ds @ e) # files'))
              = set (getReservedNumbers (files @ (ds' @ e') # files')))"
proof -
  have p7: "parseLeadingNumber ''007.jpg'' = Some 7"
    by (simp add: parseLeadingNumber_def extname_def basename_def Number_str_def digitValue_def isDigit_def)
  have p20: "parseLeadingNumber ''0020.png'' = Some 20"
    by (simp add: parseLeadingNumber_def extname_def basename_def Number_str_def digitValue_def isDigit_def)
  have r20: "20 \<in> set (getReservedNumbers (files @ ''0020.png'' # files'))"
    unfolding getReservedNumbers_set using p20 by auto
  have pd: "parseLeadingNumber (ds @ e) = Some (Number_str ds)"
    using assms(1-3) by (rule parse_digits_ext)
  have pd': "parseLeadingNumber (ds' @ e') = Some (Number_str ds')"
    using assms(5-7) by (rule parse_digits_ext)
  have z: "isDigit (CHR ''0'')" by (simp add: isDigit_def)
  have "parseLeadingNumber ((replicate k (CHR ''0'') @ ds) @ e) = Some (Number_str (replicate k (CHR ''0'') @ ds))"
    using assms(1-3) z by (intro parse_digits_ext) (auto simp: list_all_iff)
  then have pz: "parseLeadingNumber (replicate k (CHR ''0'') @ ds @ e) = Some (Number_str ds)"
    by (simp add: Number_str_zeros)
  have rd: "Number_str ds \<in> set (getReservedNumbers (files @ (ds @ e) # files'))"
    unfolding getReservedNumbers_set using pd by auto
  have same: "set (getReservedNumbers (files @ (ds @ e) # files'))
      = set (getReservedNumbers (files @ (ds' @ e') # files'))" if "Number_str ds = Number_str ds'"
    unfolding getReservedNumbers_set using pd pd' that by auto
  have prot: "isProtectedFile cfg (ds @ e)
          = (PROTECT_MIN cfg \<le> Number_str ds \<and> Number_str ds \<le> PROTECT_MAX cfg)"
    and prot': "isProtectedFile cfg (ds' @ e')
          = (PROTECT_MIN cfg \<le> Number_str ds' \<and> Number_str ds' \<le> PROTECT_MAX cfg)"
    and prot7: "isProtectedFile cfg ''007.jpg'' = (PROTECT_MIN cfg \<le> 7 \<and> 7 \<le> PROTECT_MAX cfg)"
    by (simp_all add: isProtectedFile_def pd pd' p7)
  have snoc: "getReservedNumbers (files @ [ds @ e]) = getReservedNumbers (files @ [ds' @ e'])"
    if "Number_str ds = Number_str ds'"
    using that by (simp add: getReservedNumbers_snoc pd pd')
  show ?thesis
    using p7 prot7 p20 r20 pd pz prot rd prot' same snoc
      getReservedNumbers_set[of files] getReservedNumbers_distinct[of files] initialReserved_set[of dir]
    by (intro conjI impI) simp_all
qed

text \<open>The names \<open>007.jpg\<close> and \<open>7.png\<close>, and \<open>0020.PNG\<close> with its two zeros in front.\<close>

theorem parseLeadingNumber_by_value_witness:
  "parseLeadingNumber ''007.jpg'' = Some 7
   \<and> isProtectedFile script_config ''007.jpg''
   \<and> parseLeadingNumber ''0020.PNG'' = Some 20
   \<and> \<not> isProtectedFile script_config ''20.PNG''
   \<and> isProtectedFile script_config ''007.jpg'' = isProtectedFile script_config ''7.png''
   \<and> 20 \<in> set (getReservedNumbers [''3.jpg'', ''20.PNG'', ''5.gif''])
   \<and> getReservedNumbers [''3.jpg'', ''007.jpg''] = getReservedNumbers [''3.jpg'', ''7.png'']"
proof -
  have d: "list_all isDigit ''007''" "list_all isDigit ''7''" "list_all isDigit ''20''"
    by (simp_all add: isDigit_def)
  have e: "toLowerCase ''.jpg'' \<in> set exts" "toLowerCase ''.png'' \<in> set exts"
    "toLowerCase ''.PNG'' \<in> set exts"
    by (simp_all add: toLowerCase_def lowerChar_def exts_def)
  have n: "Number_str ''007'' = 7" "Number_str ''7'' = 7" "Number_str ''20'' = 20"
    by (simp_all add: Number_str_def digitValue_def)
  have b: "Number_str ''007'' \<le> 2 ^ 53" "Number_str ''7'' \<le> 2 ^ 53" "Number_str ''20'' \<le> 2 ^ 53"
    unfolding n by simp_all
  have ne: "''007'' \<noteq> []" "''7'' \<noteq> []" "''20'' \<noteq> []" by simp_all
  note t1 = parseLeadingNumber_by_value[OF ne(1) d(1) e(1) b(1) ne(2) d(2) e(2) b(2),
      where cfg = script_config and files = "[''3.jpg'']" and files' = "[]" and k = 0
        and dir = "[] :: nat directory"]
  note t2 = parseLeadingNumber_by_value[OF ne(3) d(3) e(3) b(3) ne(2) d(2) e(2) b(2),
      where cfg = script_config and files = "[''3.jpg'']" and files' = "[''5.gif'']"
        and k = "Suc (Suc 0)" and dir = "[] :: nat directory"]
  have a1: "parseLeadingNumber ''007.jpg'' = Some 7"
    and a2: "isProtectedFile script_config ''007.jpg''"
    and a5: "isProtectedFile script_config ''007.jpg'' = isProtectedFile script_config ''7.png''"
    and a7: "getReservedNumbers [''3.jpg'', ''007.jpg''] = getReservedNumbers [''3.jpg'', ''7.png'']"
    using t1 by (auto simp: n script_config_def)
  have a3: "parseLeadingNumber ''0020.PNG'' = Some 20"
    and a4: "\<not> isProtectedFile script_config ''20.PNG''"
    and a6: "20 \<in> set (getReservedNumbers [''3.jpg'', ''20.PNG'', ''5.gif''])"
    using t2 by (auto simp: n script_config_def)
  from a1 a2 a3 a4 a5 a6 a7 show ?thesis by (intro conjI)
qed

section \<open>The rename pairs of a run\<close>

lemma getAllPhotoFiles_mem:
  "f \<in> set (getAllPhotoFiles dir) \<longleftrightarrow> isPhoto f \<and> (\<exists>d\<in>set dir. fst d = f \<and> isFile d)"
  by (auto simp: getAllPhotoFiles_def)

lemma toRenumber_set:
  "set (toRenumber lc dir) = {f \<in> set (getAllPhotoFiles dir). \<not> isAlreadyNumbered f}"
  by (simp add: toRenumber_def set_sort_cmp)

lemma toRenumber_not_numbered: "f \<in> set (toRenumber lc dir) \<Longrightarrow> parseLeadingNumber f = None"
  by (simp add: toRenumber_set isAlreadyNumbered_def)

lemma allocation_pairs:
  "\<exists>fs ns. renamePairs (allocation cfg lc dir) = map2 (\<lambda>f n. (f, targetName cfg n f)) fs ns
     \<and> length fs = length ns \<and> subseq fs (toRenumber lc dir)
     \<and> sorted_wrt (<) ns
     \<and> (\<forall>n\<in>set ns. START_NUMBER cfg \<le> n \<and> n \<notin> set (initialReserved dir))
     \<and> (\<forall>(f, n)\<in>set (zip fs ns). \<not> exists_name dir (targetName cfg n f))"
  using allocLoop_pairs[of cfg dir
      "\<lparr>nextNum = START_NUMBER cfg, reservedNumbers = initialReserved dir, renamePairs = []\<rparr>"
      "toRenumber lc dir"]
  by (simp add: allocation_def)

lemma pair_facts:
  assumes "(f, t) \<in> set (renamePairs (allocation cfg lc dir))"
  shows "f \<in> set (toRenumber lc dir)"
    and "\<exists>n. START_NUMBER cfg \<le> n \<and> n \<notin> set (initialReserved dir) \<and> t = targetName cfg n f"
    and "\<not> exists_name dir t"
proof -
  from allocation_pairs[of cfg lc dir] obtain fs ns where
    eq: "renamePairs (allocation cfg lc dir) = map2 (\<lambda>f n. (f, targetName cfg n f)) fs ns"
    and sub: "subseq fs (toRenumber lc dir)"
    and ns: "\<forall>n\<in>set ns. START_NUMBER cfg \<le> n \<and> n \<notin> set (initialReserved dir)"
    and free: "\<forall>(f, n)\<in>set (zip fs ns). \<not> exists_name dir (targetName cfg n f)"
    by blast
  from assms obtain n where z: "(f, n) \<in> set (zip fs ns)" and t: "t = targetName cfg n f"
    unfolding eq by auto
  from z have "f \<in> set fs" and n: "n \<in> set ns" by (auto dest: set_zip_leftD set_zip_rightD)
  with sub show "f \<in> set (toRenumber lc dir)" by (auto elim: list_emb_set)
  from ns n t show "\<exists>n. START_NUMBER cfg \<le> n \<and> n \<notin> set (initialReserved dir) \<and> t = targetName cfg n f"
    by blast
  from free z t show "\<not> exists_name dir t" by auto
qed


lemma dirAfter_main:
  "dirAfter (main cfg lc draws dir) =
     (if renamePairs (allocation cfg lc dir) \<noteq> []
      then dirOf (renameSafely draws dir (renamePairs (allocation cfg lc dir))) else dir)"
  by (auto simp: main_def Let_def dirAfter_def dirOf_def split: sum.splits)

lemma main_Inr:
  assumes "main cfg lc draws dir = Inr run"
  shows "renameMap run = renamePairs (allocation cfg lc dir)"
    and "items run = buildPhotoStream lc (getAllPhotoFiles (finalDir run))"
    and "(if renameMap run \<noteq> [] then renameSafely draws dir (renameMap run) else Inr dir) = Inr (finalDir run)"
  using assms by (auto simp: main_def Let_def split: sum.splits if_splits)

text \<open>
  C7 as it holds. The new name of every rename pair is the assigned number, written
  by \<open>fmtNum\<close>, followed by the extension of the old name in lower case; the number
  is the one the new name parses to, and it is at least the start number.
\<close>

theorem rename_pair_name:
  "\<forall>(f, t)\<in>set (renamePairs (allocation cfg lc dir)).
     \<exists>n. START_NUMBER cfg \<le> n \<and> parseLeadingNumber t = Some n
       \<and> t = fmtNum cfg n @ toLowerCase (extname f)"
proof (clarify)
  fix f t assume "(f, t) \<in> set (renamePairs (allocation cfg lc dir))"
  from pair_facts(2)[OF this] obtain n where
    "START_NUMBER cfg \<le> n" "t = targetName cfg n f" by blast
  moreover from this have "parseLeadingNumber t = Some n"
    by (simp add: parseLeadingNumber_targetName)
  ultimately show "\<exists>n. START_NUMBER cfg \<le> n \<and> parseLeadingNumber t = Some n
       \<and> t = fmtNum cfg n @ toLowerCase (extname f)"
    by (auto simp: targetName_def)
qed

text \<open>A photo \<open>IMG.JPG\<close> beside \<open>7.png\<close>: its new name is \<open>20.jpg\<close>.\<close>

theorem rename_pair_name_witness:
  "renamePairs (allocation script_config numericBaseCompare
      [(''IMG.JPG'', RegularFile, 0::nat), (''7.png'', RegularFile, 1)]) = [(''IMG.JPG'', ''20.jpg'')]
   \<and> (\<exists>n. START_NUMBER script_config \<le> n \<and> parseLeadingNumber ''20.jpg'' = Some n
         \<and> ''20.jpg'' = fmtNum script_config n @ toLowerCase (extname ''IMG.JPG''))"
proof -
  have e: "renamePairs (allocation script_config numericBaseCompare
      [(''IMG.JPG'', RegularFile, 0::nat), (''7.png'', RegularFile, 1)]) = [(''IMG.JPG'', ''20.jpg'')]"
    by code_simp
  from rename_pair_name[of script_config numericBaseCompare
      "[(''IMG.JPG'', RegularFile, 0::nat), (''7.png'', RegularFile, 1)]"]
  show ?thesis unfolding e by simp
qed

text \<open>
  The claim C7 as it was stated keeps the extension as it is written. For \<open>IMG.JPG\<close>
  that would be \<open>20.JPG\<close>; the pair has \<open>20.jpg\<close>.
\<close>

theorem rename_pair_original_extension_counterexample:
  "renamePairs (allocation script_config numericBaseCompare [(''IMG.JPG'', RegularFile, 0::nat)])
     = [(''IMG.JPG'', ''20.jpg'')]
   \<and> fmtNum script_config 20 @ extname ''IMG.JPG'' = ''20.JPG''
   \<and> ''20.jpg'' \<noteq> fmtNum script_config 20 @ extname ''IMG.JPG''"
  by code_simp

section \<open>What a run leaves untouched\<close>

lemma numbered_eq:
  "List.map_filter (\<lambda>f. map_option (\<lambda>n. (f, n)) (parseLeadingNumber f)) files
     = map (\<lambda>f. (f, the (parseLeadingNumber f))) (filter (\<lambda>f. parseLeadingNumber f \<noteq> None) files)"
  by (induction files) (auto simp: List.map_filter_simps split: option.splits)

lemma buildPhotoStream_src:
  "map src (buildPhotoStream lc files) =
     map srcOf
       (map fst (sort_cmp (\<lambda>a b. int (snd a) - int (snd b))
           (map (\<lambda>f. (f, the (parseLeadingNumber f))) (filter (\<lambda>f. parseLeadingNumber f \<noteq> None) files)))
        @ sort_cmp (naturalSort lc) (filter (\<lambda>f. parseLeadingNumber f = None) files))"
  by (simp add: buildPhotoStream_def Let_def comp_def numbered_eq)

lemma srcOf_inj: "srcOf a = srcOf b \<Longrightarrow> a = b"
  by (simp add: srcOf_def)

lemma buildPhotoStream_names:
  "src ` set (buildPhotoStream lc files) = srcOf ` set files"
proof -
  have "src ` set (buildPhotoStream lc files) = set (map src (buildPhotoStream lc files))"
    by simp
  also have "\<dots> = srcOf ` ({f \<in> set files. parseLeadingNumber f \<noteq> None}
      \<union> {f \<in> set files. parseLeadingNumber f = None})"
    unfolding buildPhotoStream_src by (simp add: set_sort_cmp image_Un image_image)
  also have "\<dots> = srcOf ` set files"
    by (rule arg_cong[where f="\<lambda>A. srcOf ` A"]) auto
  finally show ?thesis .
qed

lemma source_not_numbered:
  assumes "f \<in> fst ` set (renamePairs (allocation cfg lc dir))"
  shows "parseLeadingNumber f = None"
proof -
  from assms obtain t where "(f, t) \<in> set (renamePairs (allocation cfg lc dir))" by auto
  from pair_facts(1)[OF this] show ?thesis by (rule toRenumber_not_numbered)
qed

lemma target_not_existing:
  assumes "t \<in> snd ` set (renamePairs (allocation cfg lc dir))"
    and "d \<in> set dir" and "fst (snd d) \<noteq> DanglingLink"
  shows "fst d \<noteq> t"
proof
  assume "fst d = t"
  with assms(2,3) have "exists_name dir t" by (auto simp: exists_name_def)
  moreover from assms(1) obtain f where "(f, t) \<in> set (renamePairs (allocation cfg lc dir))" by auto
  then have "\<not> exists_name dir t" by (rule pair_facts(3))
  ultimately show False by contradiction
qed

lemma isProtectedFile_numbered: "isProtectedFile cfg f \<Longrightarrow> isAlreadyNumbered f"
  by (auto simp: isProtectedFile_def isAlreadyNumbered_def split: option.splits)

lemma renameSync_distinct:
  assumes "renameSync dir a b = Inr dir'" "distinct (map fst dir)"
  shows "distinct (map fst dir')"
proof (cases "a = b")
  case True
  with renameSync_Inr[OF assms(1)] assms(2) show ?thesis by simp
next
  case False
  let ?g = "\<lambda>d. if fst d = a then (b, snd d) else d"
  let ?xs = "filter (\<lambda>d. fst d \<noteq> b) dir"
  from renameSync_Inr[OF assms(1)] False have eq: "dir' = map ?g ?xs" by simp
  have dx: "distinct (map fst ?xs)" using assms(2) by (rule distinct_map_filter)
  have inj: "inj_on (\<lambda>n. if n = a then b else n) (set (map fst ?xs))"
    by (rule inj_onI) (auto split: if_splits)
  have "distinct (map (\<lambda>n. if n = a then b else n) (map fst ?xs))"
    by (rule iffD2[OF distinct_map], rule conjI, rule dx, rule inj)
  moreover have "map fst (map ?g ?xs) = map (\<lambda>n. if n = a then b else n) (map fst ?xs)"
    by (simp add: comp_def if_distrib cong: if_cong)
  ultimately show ?thesis by (simp only: eq)
qed

lemma renameAll_distinct:
  assumes "renameAll dir rs = Inr dir'" "distinct (map fst dir)"
  shows "distinct (map fst dir')"
  using assms
proof (induction rs arbitrary: dir)
  case Nil
  then show ?case by simp
next
  case (Cons r rs)
  obtain a b where r: "r = (a, b)" by (cases r)
  from Cons.prems(1) obtain dir1 where s: "renameSync dir a b = Inr dir1"
    and rest: "renameAll dir1 rs = Inr dir'"
    by (auto simp: r split: sum.splits)
  from renameSync_distinct[OF s Cons.prems(2)] Cons.IH[OF rest] show ?case by simp
qed

lemma renameSafely_distinct:
  assumes "renameSafely draws dir pairs = Inr dir'" "distinct (map fst dir)"
  shows "distinct (map fst dir')"
proof -
  from assms(1) obtain dir1 where
    p1: "renameAll dir (map (\<lambda>p. (fst p, fst (snd p))) (tmpPairs draws pairs)) = Inr dir1"
    and p2: "renameAll dir1 (map (\<lambda>p. (fst (snd p), snd (snd p))) (tmpPairs draws pairs)) = Inr dir'"
    by (auto simp: renameSafely_def Let_def split: sum.splits)
  from renameAll_distinct[OF p2 renameAll_distinct[OF p1 assms(2)]] show ?thesis .
qed

lemma main_final:
  assumes "main cfg lc draws dir = Inr run"
  shows "finalDir run = dir \<or> renameSafely draws dir (renamePairs (allocation cfg lc dir)) = Inr (finalDir run)"
  using main_Inr(3)[OF assms] main_Inr(1)[OF assms] by (auto split: if_splits)

lemma main_distinct:
  assumes "main cfg lc draws dir = Inr run" "distinct (map fst dir)"
  shows "distinct (map fst (finalDir run))"
  using main_final[OF assms(1)] assms(2) by (auto dest: renameSafely_distinct)

lemma main_back:
  assumes "main cfg lc draws dir = Inr run" "e \<in> set (finalDir run)"
  shows "fst e \<in> snd ` set (renamePairs (allocation cfg lc dir))
     \<or> (fst e \<notin> fst ` set (renamePairs (allocation cfg lc dir)) \<and> e \<in> set dir)"
proof (cases "renameMap run = []")
  case True
  with main_Inr(3)[OF assms(1)] assms(2) main_Inr(1)[OF assms(1)] show ?thesis by simp
next
  case False
  with main_Inr(3)[OF assms(1)]
  have "renameSafely draws dir (renamePairs (allocation cfg lc dir)) = Inr (finalDir run)"
    by (simp add: main_Inr(1)[OF assms(1)])
  from renameSafely_back[OF this assms(2)] show ?thesis .
qed

lemma non_regular_not_scanned:
  assumes "distinct (map fst dir)" "d \<in> set dir" "\<not> isFile d"
  shows "fst d \<notin> set (getAllPhotoFiles dir)"
proof
  assume "fst d \<in> set (getAllPhotoFiles dir)"
  then obtain d' where d': "d' \<in> set dir" "fst d' = fst d" "isFile d'"
    by (auto simp: getAllPhotoFiles_mem)
  from assms(1,2) d'(1,2) have "d' = d" by (metis eq_key_imp_eq_value prod.collapse)
  with d'(3) assms(3) show False by simp
qed

text \<open>
  C3. A file whose name without the extension is all digits is never renamed,
  inside the protected range or outside it. Such a name, whatever kind of entry
  carries it, is no candidate and the source of no rename pair. When the entry is
  anything but a dangling link, a regular file in particular, its name is the target
  of no rename pair either, and the entry, under the same name, is in the directory
  the run leaves, whether the run completes or stops at a failed rename.
\<close>

theorem numbered_files_untouched:
  assumes "d \<in> set dir" and "isProtectedFile cfg (fst d) \<or> isAlreadyNumbered (fst d)"
  shows "isAlreadyNumbered (fst d)
     \<and> fst d \<notin> set (toRenumber lc dir)
     \<and> fst d \<notin> fst ` set (renamePairs (allocation cfg lc dir))
     \<and> (fst (snd d) \<noteq> DanglingLink \<longrightarrow>
           fst d \<notin> snd ` set (renamePairs (allocation cfg lc dir))
           \<and> d \<in> set (dirAfter (main cfg lc draws dir)))"
proof -
  let ?pairs = "renamePairs (allocation cfg lc dir)"
  from assms(2) have num: "isAlreadyNumbered (fst d)"
    by (auto dest: isProtectedFile_numbered)
  then have p: "parseLeadingNumber (fst d) \<noteq> None" by (simp add: isAlreadyNumbered_def)
  have a: "fst d \<notin> set (toRenumber lc dir)"
    using toRenumber_not_numbered[of "fst d" lc dir] p by auto
  have b: "fst d \<notin> fst ` set ?pairs"
    using source_not_numbered[of "fst d" cfg lc dir] p by auto
  have c: "fst d \<notin> snd ` set ?pairs" if "fst (snd d) \<noteq> DanglingLink"
    using target_not_existing[OF _ assms(1) that, of "fst d" cfg lc] by auto
  have e: "d \<in> set (dirAfter (main cfg lc draws dir))" if "fst (snd d) \<noteq> DanglingLink"
  proof -
    have "d \<in> set (dirOf (renameSafely draws dir ?pairs))"
      using assms(1) b c[OF that] p by (rule renameSafely_keeps)
    then show ?thesis using assms(1) by (simp add: dirAfter_main)
  qed
  from num a b c e show ?thesis by blast
qed

text \<open>
  A run that renames \<open>IMG_A.jpg\<close> to \<open>20.jpg\<close> between the protected \<open>3.jpg\<close> and
  the numbered \<open>25.png\<close>, which both stay.
\<close>

theorem numbered_files_untouched_witness:
  "dirAfter (main script_config numericBaseCompare (\<lambda>i. (5 + i, [10, 11]))
      [(''3.jpg'', RegularFile, 10::nat), (''IMG_A.jpg'', RegularFile, 11), (''25.png'', RegularFile, 12)])
     = [(''3.jpg'', RegularFile, 10), (''20.jpg'', RegularFile, 11), (''25.png'', RegularFile, 12)]
   \<and> isProtectedFile script_config ''3.jpg'' \<and> \<not> isProtectedFile script_config ''25.png''
   \<and> isAlreadyNumbered ''25.png''
   \<and> ''3.jpg'' \<notin> snd ` set (renamePairs (allocation script_config numericBaseCompare
          [(''3.jpg'', RegularFile, 10::nat), (''IMG_A.jpg'', RegularFile, 11), (''25.png'', RegularFile, 12)]))
   \<and> (''25.png'', RegularFile, 12)
       \<in> set (dirAfter (main script_config numericBaseCompare (\<lambda>i. (5 + i, [10, 11]))
          [(''3.jpg'', RegularFile, 10::nat), (''IMG_A.jpg'', RegularFile, 11), (''25.png'', RegularFile, 12)]))"
proof -
  let ?dir = "[(''3.jpg'', RegularFile, 10::nat), (''IMG_A.jpg'', RegularFile, 11), (''25.png'', RegularFile, 12)]"
  have p3: "isProtectedFile script_config (fst (''3.jpg'', RegularFile, 10::nat))
      \<or> isAlreadyNumbered (fst (''3.jpg'', RegularFile, 10::nat))"
    and p25: "isProtectedFile script_config (fst (''25.png'', RegularFile, 12::nat))
      \<or> isAlreadyNumbered (fst (''25.png'', RegularFile, 12::nat))"
    by code_simp+
  have q: "isProtectedFile script_config ''3.jpg''" "\<not> isProtectedFile script_config ''25.png''"
    "isAlreadyNumbered ''25.png''"
    by code_simp+
  have m3: "(''3.jpg'', RegularFile, 10::nat) \<in> set ?dir" and m25: "(''25.png'', RegularFile, 12::nat) \<in> set ?dir"
    by simp_all
  have ev: "dirAfter (main script_config numericBaseCompare (\<lambda>i. (5 + i, [10, 11])) ?dir)
     = [(''3.jpg'', RegularFile, 10), (''20.jpg'', RegularFile, 11), (''25.png'', RegularFile, 12)]"
    by code_simp
  from numbered_files_untouched[OF m3 p3, of numericBaseCompare "\<lambda>i. (5 + i, [10, 11])"]
    numbered_files_untouched[OF m25 p25, of numericBaseCompare "\<lambda>i. (5 + i, [10, 11])"]
  show ?thesis
    unfolding ev using q by simp
qed

text \<open>
  The bound of C3 on the kind of entry is needed. For a dangling link \<open>20.jpg\<close>
  \<open>exists\<close> answers \<open>false\<close>, the photo \<open>IMG_A.jpg\<close> is renamed to \<open>20.jpg\<close>, and
  the rename puts the photo in the place of the link.
\<close>

lemma dangling_link_is_replaced:
  "main script_config numericBaseCompare (\<lambda>i. (5 + i, [10, 11]))
      [(''20.jpg'', DanglingLink, 10::nat), (''IMG_A.jpg'', RegularFile, 11)]
     = Inr \<lparr>finalDir = [(''20.jpg'', RegularFile, 11)],
            items = [\<lparr>src = srcOf ''20.jpg'', label = LABEL\<rparr>],
            protectedCount = 0, renameMap = [(''IMG_A.jpg'', ''20.jpg'')]\<rparr>"
  by code_simp

text \<open>
  C10. An entry that is not a regular file is left out everywhere, whatever its name:
  it is not among the scanned photos, so it is neither protected, numbered nor a
  candidate, and it is the source of no rename pair. Unless it is a dangling link, its
  name is the target of no rename pair, and after a completed run the rescan does not
  find that name and the manifest has no item for it. In the directory a completed run
  leaves, no entry that is not a regular file is found by the rescan or has an item in
  the manifest.
\<close>

theorem non_regular_entries_excluded:
  assumes "distinct (map fst dir)" and "d \<in> set dir" and "\<not> isFile d"
  shows "fst d \<notin> set (getAllPhotoFiles dir)
     \<and> fst d \<notin> set (filter (isProtectedFile cfg) (getAllPhotoFiles dir))
     \<and> fst d \<notin> set (filter isAlreadyNumbered (getAllPhotoFiles dir))
     \<and> fst d \<notin> set (toRenumber lc dir)
     \<and> fst d \<notin> fst ` set (renamePairs (allocation cfg lc dir))
     \<and> (fst (snd d) \<noteq> DanglingLink \<longrightarrow>
           fst d \<notin> snd ` set (renamePairs (allocation cfg lc dir))
           \<and> (\<forall>run. main cfg lc draws dir = Inr run \<longrightarrow>
                 fst d \<notin> set (getAllPhotoFiles (finalDir run))
                 \<and> srcOf (fst d) \<notin> src ` set (items run)))
     \<and> (\<forall>run. main cfg lc draws dir = Inr run \<longrightarrow>
           (\<forall>e\<in>set (finalDir run). \<not> isFile e \<longrightarrow>
               fst e \<notin> set (getAllPhotoFiles (finalDir run))
               \<and> srcOf (fst e) \<notin> src ` set (items run)))"
proof -
  let ?pairs = "renamePairs (allocation cfg lc dir)"
  have a: "fst d \<notin> set (getAllPhotoFiles dir)"
    using assms by (rule non_regular_not_scanned)
  then have b: "fst d \<notin> set (toRenumber lc dir)"
    by (simp add: toRenumber_set)
  have c: "fst d \<notin> fst ` set ?pairs"
  proof
    assume "fst d \<in> fst ` set ?pairs"
    then obtain t where "(fst d, t) \<in> set ?pairs" by auto
    from pair_facts(1)[OF this] b show False by contradiction
  qed
  have fin: "fst e \<notin> set (getAllPhotoFiles (finalDir run)) \<and> srcOf (fst e) \<notin> src ` set (items run)"
    if run: "main cfg lc draws dir = Inr run" and e: "e \<in> set (finalDir run)" "\<not> isFile e" for run e
  proof -
    have "distinct (map fst (finalDir run))" using run assms(1) by (rule main_distinct)
    then have "fst e \<notin> set (getAllPhotoFiles (finalDir run))"
      using e by (rule non_regular_not_scanned)
    moreover have "items run = buildPhotoStream lc (getAllPhotoFiles (finalDir run))"
      by (rule main_Inr(2)[OF run])
    ultimately show ?thesis by (auto simp: buildPhotoStream_names dest: srcOf_inj)
  qed
  have t: "fst d \<notin> snd ` set ?pairs" if "fst (snd d) \<noteq> DanglingLink"
    using target_not_existing[OF _ assms(2) that, of "fst d" cfg lc] by auto
  have g: "fst d \<notin> set (getAllPhotoFiles (finalDir run)) \<and> srcOf (fst d) \<notin> src ` set (items run)"
    if live: "fst (snd d) \<noteq> DanglingLink" and run: "main cfg lc draws dir = Inr run" for run
  proof -
    have "fst d \<notin> set (getAllPhotoFiles (finalDir run))"
    proof
      assume "fst d \<in> set (getAllPhotoFiles (finalDir run))"
      then obtain d' where d': "d' \<in> set (finalDir run)" "fst d' = fst d" "isFile d'"
        by (auto simp: getAllPhotoFiles_mem)
      from main_back[OF run d'(1)] t[OF live] d'(2) have "d' \<in> set dir" by simp
      with assms(1,2) d'(2) have "d' = d" by (metis eq_key_imp_eq_value prod.collapse)
      with d'(3) assms(3) show False by simp
    qed
    moreover have "items run = buildPhotoStream lc (getAllPhotoFiles (finalDir run))"
      by (rule main_Inr(2)[OF run])
    ultimately show ?thesis by (auto simp: buildPhotoStream_names dest: srcOf_inj)
  qed
  from a b c t g fin show ?thesis by simp
qed

text \<open>A subdirectory named \<open>album.jpg\<close> beside one photo.\<close>

theorem non_regular_entries_excluded_witness:
  "\<not> isFile (''album.jpg'', Directory, 10::nat)
   \<and> main script_config numericBaseCompare (\<lambda>i. (5 + i, [10, 11]))
        [(''album.jpg'', Directory, 10::nat), (''IMG_A.jpg'', RegularFile, 11)]
      = Inr \<lparr>finalDir = [(''album.jpg'', Directory, 10), (''20.jpg'', RegularFile, 11)],
             items = [\<lparr>src = srcOf ''20.jpg'', label = LABEL\<rparr>],
             protectedCount = 0, renameMap = [(''IMG_A.jpg'', ''20.jpg'')]\<rparr>
   \<and> ''album.jpg'' \<notin> set (getAllPhotoFiles [(''album.jpg'', Directory, 10::nat), (''IMG_A.jpg'', RegularFile, 11)])
   \<and> ''album.jpg'' \<notin> set (getAllPhotoFiles [(''album.jpg'', Directory, 10::nat), (''20.jpg'', RegularFile, 11)])
   \<and> srcOf ''album.jpg'' \<notin> src ` set [\<lparr>src = srcOf ''20.jpg'', label = LABEL\<rparr>]
   \<and> srcOf ''20.jpg'' = ''./photos/20.jpg''"
proof -
  let ?dir = "[(''album.jpg'', Directory, 10::nat), (''IMG_A.jpg'', RegularFile, 11)]"
  have ev: "main script_config numericBaseCompare (\<lambda>i. (5 + i, [10, 11])) ?dir
      = Inr \<lparr>finalDir = [(''album.jpg'', Directory, 10), (''20.jpg'', RegularFile, 11)],
             items = [\<lparr>src = srcOf ''20.jpg'', label = LABEL\<rparr>],
             protectedCount = 0, renameMap = [(''IMG_A.jpg'', ''20.jpg'')]\<rparr>"
    by code_simp
  have h: "distinct (map fst ?dir)" "(''album.jpg'', Directory, 10::nat) \<in> set ?dir"
    "\<not> isFile (''album.jpg'', Directory, 10::nat)"
    by (simp_all add: isFile_def)
  from non_regular_entries_excluded[OF h, of script_config numericBaseCompare "\<lambda>i. (5 + i, [10, 11])"]
  show ?thesis
    unfolding ev using h(3) by (auto simp: srcOf_def)
qed

section \<open>An existing target\<close>


text \<open>
  C1, on the code. The directory holds a subdirectory named \<open>20.jpg\<close> and the photo
  \<open>IMG_A.jpg\<close>. No file reserves 20, the target \<open>20.jpg\<close> exists, and the loop marks
  20 as reserved, moves the cursor to 21 and goes on to the next candidate: the photo
  receives no rename pair and keeps its name through the run. With two photos
  \<open>a.jpg\<close> and \<open>b.jpg\<close> beside the subdirectory, \<open>a.jpg\<close> is passed over and
  \<open>b.jpg\<close> becomes \<open>21.jpg\<close>.
\<close>

theorem collision_drops_candidate:
  "toRenumber numericBaseCompare [(''20.jpg'', Directory, 0::nat), (''IMG_A.jpg'', RegularFile, 1)]
     = [''IMG_A.jpg'']
   \<and> allocation script_config numericBaseCompare
        [(''20.jpg'', Directory, 0::nat), (''IMG_A.jpg'', RegularFile, 1)]
     = \<lparr>nextNum = 21, reservedNumbers = [20], renamePairs = []\<rparr>
   \<and> main script_config numericBaseCompare (\<lambda>i. (5 + i, [10, 11]))
        [(''20.jpg'', Directory, 0::nat), (''IMG_A.jpg'', RegularFile, 1)]
     = Inr \<lparr>finalDir = [(''20.jpg'', Directory, 0), (''IMG_A.jpg'', RegularFile, 1)],
            items = [\<lparr>src = srcOf ''IMG_A.jpg'', label = LABEL\<rparr>],
            protectedCount = 0, renameMap = []\<rparr>
   \<and> renamePairs (allocation script_config numericBaseCompare
        [(''20.jpg'', Directory, 0::nat), (''a.jpg'', RegularFile, 1), (''b.jpg'', RegularFile, 2)])
     = [(''b.jpg'', ''21.jpg'')]"
  by code_simp

section \<open>The numbers the allocator assigns\<close>

lemma assigns_in_order_unique:
  assumes "assigns_in_order c R ns" "assigns_in_order c R ns'" "length ns = length ns'"
  shows "ns = ns'"
  using assms
proof (induction ns arbitrary: ns' c R)
  case Nil
  then show ?case by simp
next
  case (Cons n ns)
  from Cons.prems(3) obtain n' ms where ns': "ns' = n' # ms" by (cases ns') auto
  from Cons.prems(1) have a: "c \<le> n" "\<forall>m\<in>{c..<n}. m \<in> R" "n \<notin> R"
    and ra: "assigns_in_order (n + 1) (insert n R) ns" by simp_all
  from Cons.prems(2) have b: "c \<le> n'" "\<forall>m\<in>{c..<n'}. m \<in> R" "n' \<notin> R"
    and rb: "assigns_in_order (n' + 1) (insert n' R) ms" by (simp_all add: ns')
  have "n = n'"
  proof (rule ccontr)
    assume "n \<noteq> n'"
    then consider "n < n'" | "n' < n" by (auto simp: neq_iff)
    then show False
    proof cases
      case 1
      with a(1) have "n \<in> {c..<n'}" by simp
      with b(2) a(3) show False by blast
    next
      case 2
      with b(1) have "n' \<in> {c..<n}" by simp
      with a(2) b(3) show False by blast
    qed
  qed
  with rb have "assigns_in_order (n + 1) (insert n R) ms" by simp
  from Cons.IH[OF ra this] Cons.prems(3) have "ns = ms" by (simp add: ns')
  with \<open>n = n'\<close> show ?case by (simp add: ns')
qed

lemma assigns_in_order_sorted:
  assumes "assigns_in_order c R ns"
  shows "sorted_wrt (<) ns \<and> (\<forall>n\<in>set ns. c \<le> n \<and> n \<notin> R)"
  using assms
proof (induction ns arbitrary: c R)
  case Nil
  then show ?case by simp
next
  case (Cons n ns)
  from Cons.prems have a: "c \<le> n" "n \<notin> R"
    and r: "assigns_in_order (n + 1) (insert n R) ns" by simp_all
  from Cons.IH[OF r] have ih: "sorted_wrt (<) ns" "\<forall>m\<in>set ns. n + 1 \<le> m \<and> m \<notin> insert n R"
    by simp_all
  from ih(2) have "\<forall>m\<in>set ns. n < m \<and> c \<le> m \<and> m \<notin> R" using a(1) by auto
  with ih(1) a show ?case by auto
qed

lemma allocLoop_visits:
  "\<exists>ns. length ns = length cs
     \<and> assigns_in_order (nextNum st) (set (reservedNumbers st)) ns
     \<and> renamePairs (allocLoop cfg dir st cs)
         = renamePairs st @ map (\<lambda>(f, n). (f, targetName cfg n f))
             (filter (\<lambda>(f, n). \<not> exists_name dir (targetName cfg n f)) (zip cs ns))
     \<and> set (reservedNumbers (allocLoop cfg dir st cs)) = set (reservedNumbers st) \<union> set ns
     \<and> nextNum (allocLoop cfg dir st cs) = (if ns = [] then nextNum st else last ns + 1)"
proof (induction cs arbitrary: st)
  case Nil
  show ?case by (intro exI[of _ "[]"]) (simp add: allocLoop_Nil)
next
  case (Cons c cs)
  define n where "n = skipReserved (reservedNumbers st) (nextNum st)"
  define st1 where "st1 = allocStep cfg dir st c"
  have nn: "nextNum st1 = n + 1" and rs: "set (reservedNumbers st1) = insert n (set (reservedNumbers st))"
    by (simp_all add: st1_def n_def allocStep_nextNum allocStep_reserved)
  have nge: "nextNum st \<le> n" and nfree: "n \<notin> set (reservedNumbers st)"
    by (simp_all add: n_def skipReserved_ge skipReserved_free)
  have btw: "\<forall>m\<in>{nextNum st..<n}. m \<in> set (reservedNumbers st)"
    using skipReserved_between[of "nextNum st" _ "reservedNumbers st"] by (auto simp: n_def)
  from Cons.IH[of st1] obtain ns where IH: "length ns = length cs"
    "assigns_in_order (nextNum st1) (set (reservedNumbers st1)) ns"
    "renamePairs (allocLoop cfg dir st1 cs)
       = renamePairs st1 @ map (\<lambda>(f, n). (f, targetName cfg n f))
           (filter (\<lambda>(f, n). \<not> exists_name dir (targetName cfg n f)) (zip cs ns))"
    "set (reservedNumbers (allocLoop cfg dir st1 cs)) = set (reservedNumbers st1) \<union> set ns"
    "nextNum (allocLoop cfg dir st1 cs) = (if ns = [] then nextNum st1 else last ns + 1)"
    by blast
  have p1: "renamePairs st1 = renamePairs st @ map (\<lambda>(f, n). (f, targetName cfg n f))
           (filter (\<lambda>(f, n). \<not> exists_name dir (targetName cfg n f)) [(c, n)])"
    by (simp add: st1_def allocStep_pairs n_def Let_def)
  have a: "length (n # ns) = length (c # cs)" using IH(1) by simp
  have b: "assigns_in_order (nextNum st) (set (reservedNumbers st)) (n # ns)"
    using IH(2) nge nfree btw by (simp add: nn rs)
  have c: "renamePairs (allocLoop cfg dir st (c # cs))
         = renamePairs st @ map (\<lambda>(f, n). (f, targetName cfg n f))
             (filter (\<lambda>(f, n). \<not> exists_name dir (targetName cfg n f)) (zip (c # cs) (n # ns)))"
    unfolding allocLoop_Cons st1_def[symmetric] IH(3) p1 by simp
  have d: "set (reservedNumbers (allocLoop cfg dir st (c # cs))) = set (reservedNumbers st) \<union> set (n # ns)"
    unfolding allocLoop_Cons st1_def[symmetric] IH(4) rs by simp
  have e: "nextNum (allocLoop cfg dir st (c # cs)) = (if n # ns = [] then nextNum st else last (n # ns) + 1)"
    unfolding allocLoop_Cons st1_def[symmetric] IH(5) nn by simp
  from a b c d e show ?case by blast
qed

text \<open>
  C2 as it holds. The loop runs from the floor and the reserved numbers over the
  candidates in order. There is exactly one way to take, for each candidate in order,
  the first cursor value from the floor on that is not reserved at that moment, to add
  it to the reserved numbers and to move the cursor past it: the numbers \<open>ns\<close>. The
  loop takes these numbers, and a candidate is assigned its number whenever the check
  for an existing target name does not fire: the rename pairs are the candidates with
  their numbers, in order, less those whose target name exists. When the check fires
  for no candidate, every candidate is assigned its number. The numbers are strictly
  increasing, at least the floor and not reserved at the start; after the loop they
  are reserved and the cursor stands behind the last of them. For the directory
  \<open>5.jpg\<close>, \<open>vacation.png\<close>, \<open>beach.jpg\<close>, \<open>20.webp\<close> and a collation that
  puts \<open>beach.jpg\<close> first, the reserved numbers are 5 and 20 and the rename pairs
  are \<open>beach.jpg\<close> to \<open>21.jpg\<close> and \<open>vacation.png\<close> to \<open>22.png\<close>.
\<close>

theorem allocator_assignment:
  fixes cfg :: config and dir :: "'c directory" and floor :: nat and reserved :: "nat list"
    and candidates :: "string list" and lc :: "string \<Rightarrow> string \<Rightarrow> int"
    and c1 c2 c3 c4 :: 'c
  defines "target \<equiv> (\<lambda>f n. fmtNum cfg n @ toLowerCase (extname f))"
  defines "final \<equiv> allocLoop cfg dir
      \<lparr>nextNum = floor, reservedNumbers = reserved, renamePairs = []\<rparr> candidates"
  shows "(\<exists>ns. length ns = length candidates
        \<and> assigns_in_order floor (set reserved) ns
        \<and> (\<forall>ns'. length ns' = length candidates \<and> assigns_in_order floor (set reserved) ns'
              \<longrightarrow> ns' = ns)
        \<and> renamePairs final
            = map (\<lambda>(f, n). (f, target f n))
                (filter (\<lambda>(f, n). \<not> exists_name dir (target f n)) (zip candidates ns))
        \<and> ((\<forall>(f, n)\<in>set (zip candidates ns). \<not> exists_name dir (target f n))
              \<longrightarrow> renamePairs final = map2 (\<lambda>f n. (f, target f n)) candidates ns)
        \<and> sorted_wrt (<) ns \<and> (\<forall>n\<in>set ns. floor \<le> n \<and> n \<notin> set reserved)
        \<and> set (reservedNumbers final) = set reserved \<union> set ns
        \<and> nextNum final = (if ns = [] then floor else last ns + 1))
   \<and> (0 < lc ''vacation.png'' ''beach.jpg'' \<longrightarrow>
        set (initialReserved [(''5.jpg'', RegularFile, c1), (''vacation.png'', RegularFile, c2),
                              (''beach.jpg'', RegularFile, c3), (''20.webp'', RegularFile, c4)]) = {5, 20}
        \<and> renamePairs (allocation script_config lc
              [(''5.jpg'', RegularFile, c1), (''vacation.png'', RegularFile, c2),
               (''beach.jpg'', RegularFile, c3), (''20.webp'', RegularFile, c4)])
            = [(''beach.jpg'', ''21.jpg''), (''vacation.png'', ''22.png'')])"
proof (intro conjI impI)
  let ?st = "\<lparr>nextNum = floor, reservedNumbers = reserved, renamePairs = []\<rparr>"
  from allocLoop_visits[of candidates ?st cfg dir] obtain ns where ns:
    "length ns = length candidates"
    "assigns_in_order floor (set reserved) ns"
    "renamePairs final
       = map (\<lambda>(f, n). (f, target f n))
           (filter (\<lambda>(f, n). \<not> exists_name dir (target f n)) (zip candidates ns))"
    "set (reservedNumbers final) = set reserved \<union> set ns"
    "nextNum final = (if ns = [] then floor else last ns + 1)"
    unfolding final_def target_def targetName_def by auto
  have u: "\<forall>ns'. length ns' = length candidates \<and> assigns_in_order floor (set reserved) ns'
              \<longrightarrow> ns' = ns"
    using assigns_in_order_unique[OF _ ns(2)] ns(1) by simp
  have all: "renamePairs final = map2 (\<lambda>f n. (f, target f n)) candidates ns"
    if "\<forall>(f, n)\<in>set (zip candidates ns). \<not> exists_name dir (target f n)"
  proof -
    from that have "filter (\<lambda>(f, n). \<not> exists_name dir (target f n)) (zip candidates ns) = zip candidates ns"
      by (rule filter_True)
    with ns(3) show ?thesis by simp
  qed
  from assigns_in_order_sorted[OF ns(2)]
  have s: "sorted_wrt (<) ns" "\<forall>n\<in>set ns. floor \<le> n \<and> n \<notin> set reserved" by simp_all
  show "\<exists>ns. length ns = length candidates
        \<and> assigns_in_order floor (set reserved) ns
        \<and> (\<forall>ns'. length ns' = length candidates \<and> assigns_in_order floor (set reserved) ns'
              \<longrightarrow> ns' = ns)
        \<and> renamePairs final
            = map (\<lambda>(f, n). (f, target f n))
                (filter (\<lambda>(f, n). \<not> exists_name dir (target f n)) (zip candidates ns))
        \<and> ((\<forall>(f, n)\<in>set (zip candidates ns). \<not> exists_name dir (target f n))
              \<longrightarrow> renamePairs final = map2 (\<lambda>f n. (f, target f n)) candidates ns)
        \<and> sorted_wrt (<) ns \<and> (\<forall>n\<in>set ns. floor \<le> n \<and> n \<notin> set reserved)
        \<and> set (reservedNumbers final) = set reserved \<union> set ns
        \<and> nextNum final = (if ns = [] then floor else last ns + 1)"
  proof (rule exI[of _ ns], intro conjI impI)
    show "length ns = length candidates" by (rule ns(1))
    show "assigns_in_order floor (set reserved) ns" by (rule ns(2))
    show "\<forall>ns'. length ns' = length candidates \<and> assigns_in_order floor (set reserved) ns'
              \<longrightarrow> ns' = ns" by (rule u)
    show "renamePairs final
            = map (\<lambda>(f, n). (f, target f n))
                (filter (\<lambda>(f, n). \<not> exists_name dir (target f n)) (zip candidates ns))" by (rule ns(3))
    show "renamePairs final = map2 (\<lambda>f n. (f, target f n)) candidates ns"
      if "\<forall>(f, n)\<in>set (zip candidates ns). \<not> exists_name dir (target f n)"
      using that by (rule all)
    show "sorted_wrt (<) ns" by (rule s(1))
    show "\<forall>n\<in>set ns. floor \<le> n \<and> n \<notin> set reserved" by (rule s(2))
    show "set (reservedNumbers final) = set reserved \<union> set ns" by (rule ns(4))
    show "nextNum final = (if ns = [] then floor else last ns + 1)" by (rule ns(5))
  qed
next
  let ?dir = "[(''5.jpg'', RegularFile, c1), (''vacation.png'', RegularFile, c2),
               (''beach.jpg'', RegularFile, c3), (''20.webp'', RegularFile, c4)]"
  have names: "map fst (filter isFile ?dir) = [''5.jpg'', ''vacation.png'', ''beach.jpg'', ''20.webp'']"
    by (simp add: isFile_def)
  have ph: "filter isPhoto [''5.jpg'', ''vacation.png'', ''beach.jpg'', ''20.webp'']
      = [''5.jpg'', ''vacation.png'', ''beach.jpg'', ''20.webp'']"
    by code_simp
  have all: "getAllPhotoFiles ?dir = [''5.jpg'', ''vacation.png'', ''beach.jpg'', ''20.webp'']"
    unfolding getAllPhotoFiles_def names ph ..
  have res: "initialReserved ?dir = [5, 20]"
    unfolding initialReserved_def all by code_simp
  show "set (initialReserved ?dir) = {5, 20}"
    unfolding res by simp
  assume order: "0 < lc ''vacation.png'' ''beach.jpg''"
  have cand: "filter (\<lambda>f. \<not> isAlreadyNumbered f) [''5.jpg'', ''vacation.png'', ''beach.jpg'', ''20.webp'']
      = [''vacation.png'', ''beach.jpg'']"
    by code_simp
  have tr: "toRenumber lc ?dir = [''beach.jpg'', ''vacation.png'']"
    unfolding toRenumber_def all cand using order by (simp add: naturalSort_def)
  have ex: "\<not> exists_name ?dir ''21.jpg''" "\<not> exists_name ?dir ''22.png''"
    by (simp_all add: exists_name_def)
  have t: "targetName script_config 21 ''beach.jpg'' = ''21.jpg''"
    "targetName script_config 22 ''vacation.png'' = ''22.png''"
    by code_simp+
  have s: "skipReserved [5, 20] 20 = 21" "skipReserved [5, 20, 21] 22 = 22"
    by code_simp+
  have st1: "allocStep script_config ?dir \<lparr>nextNum = 20, reservedNumbers = [5, 20], renamePairs = []\<rparr> ''beach.jpg''
      = \<lparr>nextNum = 22, reservedNumbers = [5, 20, 21], renamePairs = [(''beach.jpg'', ''21.jpg'')]\<rparr>"
    using ex(1) t(1) by (simp add: allocStep_def Let_def s(1) set_add_def targetName_def)
  have st2: "allocStep script_config ?dir
        \<lparr>nextNum = 22, reservedNumbers = [5, 20, 21], renamePairs = [(''beach.jpg'', ''21.jpg'')]\<rparr> ''vacation.png''
      = \<lparr>nextNum = 23, reservedNumbers = [5, 20, 21, 22],
          renamePairs = [(''beach.jpg'', ''21.jpg''), (''vacation.png'', ''22.png'')]\<rparr>"
    using ex(2) t(2) by (simp add: allocStep_def Let_def s(2) set_add_def targetName_def)
  have start: "START_NUMBER script_config = 20" by (simp add: script_config_def)
  show "renamePairs (allocation script_config lc ?dir)
            = [(''beach.jpg'', ''21.jpg''), (''vacation.png'', ''22.png'')]"
    unfolding allocation_def tr res start by (simp add: allocLoop_def st1 st2)
qed

text \<open>
  The directory of the example, with the collation \<open>numericBaseCompare\<close>; and the
  directory \<open>7.txt\<close>, \<open>a.jpg\<close>, where nothing is reserved, no target name
  exists and \<open>a.jpg\<close> is given 20.
\<close>

theorem allocator_assignment_witness:
  "0 < numericBaseCompare ''vacation.png'' ''beach.jpg''
   \<and> renamePairs (allocation script_config numericBaseCompare
        [(''5.jpg'', RegularFile, 10::nat), (''vacation.png'', RegularFile, 11),
         (''beach.jpg'', RegularFile, 12), (''20.webp'', RegularFile, 13)])
      = [(''beach.jpg'', ''21.jpg''), (''vacation.png'', ''22.png'')]
   \<and> assigns_in_order 20 (set [5, 20]) [21, 22]
   \<and> renamePairs (allocLoop script_config
        [(''5.jpg'', RegularFile, 10::nat), (''vacation.png'', RegularFile, 11),
         (''beach.jpg'', RegularFile, 12), (''20.webp'', RegularFile, 13)]
        \<lparr>nextNum = 20, reservedNumbers = [5, 20], renamePairs = []\<rparr>
        [''beach.jpg'', ''vacation.png''])
      = [(''beach.jpg'', ''21.jpg''), (''vacation.png'', ''22.png'')]
   \<and> set (reservedNumbers (allocLoop script_config
        [(''5.jpg'', RegularFile, 10::nat), (''vacation.png'', RegularFile, 11),
         (''beach.jpg'', RegularFile, 12), (''20.webp'', RegularFile, 13)]
        \<lparr>nextNum = 20, reservedNumbers = [5, 20], renamePairs = []\<rparr>
        [''beach.jpg'', ''vacation.png''])) = {5, 20, 21, 22}
   \<and> nextNum (allocLoop script_config
        [(''5.jpg'', RegularFile, 10::nat), (''vacation.png'', RegularFile, 11),
         (''beach.jpg'', RegularFile, 12), (''20.webp'', RegularFile, 13)]
        \<lparr>nextNum = 20, reservedNumbers = [5, 20], renamePairs = []\<rparr>
        [''beach.jpg'', ''vacation.png'']) = 23
   \<and> initialReserved [(''7.txt'', RegularFile, 14::nat), (''a.jpg'', RegularFile, 15)] = []
   \<and> assigns_in_order 20 (set []) [20]
   \<and> renamePairs (allocLoop script_config
        [(''7.txt'', RegularFile, 14::nat), (''a.jpg'', RegularFile, 15)]
        \<lparr>nextNum = 20, reservedNumbers = [], renamePairs = []\<rparr> [''a.jpg''])
      = [(''a.jpg'', ''20.jpg'')]"
proof -
  let ?dir = "[(''5.jpg'', RegularFile, 10::nat), (''vacation.png'', RegularFile, 11),
               (''beach.jpg'', RegularFile, 12), (''20.webp'', RegularFile, 13)]"
  let ?final = "allocLoop script_config ?dir
        \<lparr>nextNum = 20, reservedNumbers = [5, 20], renamePairs = []\<rparr> [''beach.jpg'', ''vacation.png'']"
  let ?target = "\<lambda>f n. fmtNum script_config n @ toLowerCase (extname f)"
  have order: "0 < numericBaseCompare ''vacation.png'' ''beach.jpg''"
    by code_simp
  have spec: "assigns_in_order 20 (set [5, 20]) [21, 22]"
    by simp
  have tg: "?target ''beach.jpg'' 21 = ''21.jpg''" "?target ''vacation.png'' 22 = ''22.png''"
    by code_simp+
  have free: "\<not> exists_name ?dir ''21.jpg''" "\<not> exists_name ?dir ''22.png''"
    by (simp_all add: exists_name_def)
  note t = allocator_assignment[where cfg = script_config and dir = ?dir and floor = 20
      and reserved = "[5, 20]" and candidates = "[''beach.jpg'', ''vacation.png'']"
      and lc = numericBaseCompare and ?c1.0 = 10 and ?c2.0 = 11 and ?c3.0 = 12 and ?c4.0 = 13]
  have b: "renamePairs (allocation script_config numericBaseCompare ?dir)
      = [(''beach.jpg'', ''21.jpg''), (''vacation.png'', ''22.png'')]"
    by (rule conjunct2[OF mp[OF conjunct2[OF t] order]])
  from conjunct1[OF t] obtain ns where ns:
    "\<forall>ns'. length ns' = length [''beach.jpg'', ''vacation.png''] \<and> assigns_in_order 20 (set [5, 20]) ns'
         \<longrightarrow> ns' = ns"
    "(\<forall>(f, n)\<in>set (zip [''beach.jpg'', ''vacation.png''] ns). \<not> exists_name ?dir (?target f n))
         \<longrightarrow> renamePairs ?final = map2 (\<lambda>f n. (f, ?target f n)) [''beach.jpg'', ''vacation.png''] ns"
    "set (reservedNumbers ?final) = set [5, 20] \<union> set ns"
    "nextNum ?final = (if ns = [] then 20 else last ns + 1)"
    by (elim exE conjE) (rule that)
  have "length [21, 22::nat] = length [''beach.jpg'', ''vacation.png'']" by simp
  with spec ns(1) have "[21, 22] = ns" by blast
  then have eq: "ns = [21, 22]" by (rule sym)
  have c: "renamePairs ?final = [(''beach.jpg'', ''21.jpg''), (''vacation.png'', ''22.png'')]"
    using ns(2) free unfolding eq by (simp add: tg)
  have d: "set (reservedNumbers ?final) = {5, 20, 21, 22}"
    using ns(3) unfolding eq by auto
  have e: "nextNum ?final = 23"
    using ns(4) unfolding eq by simp
  let ?dir2 = "[(''7.txt'', RegularFile, 14::nat), (''a.jpg'', RegularFile, 15)]"
  let ?final2 = "allocLoop script_config ?dir2
        \<lparr>nextNum = 20, reservedNumbers = [], renamePairs = []\<rparr> [''a.jpg'']"
  have res2: "initialReserved ?dir2 = []"
    by code_simp
  have spec2: "assigns_in_order 20 (set []) [20]"
    by simp
  have tg2: "?target ''a.jpg'' 20 = ''20.jpg''"
    by code_simp
  have free2: "\<not> exists_name ?dir2 ''20.jpg''"
    by (simp add: exists_name_def)
  note t2 = allocator_assignment[where cfg = script_config and dir = ?dir2 and floor = 20
      and reserved = "[]" and candidates = "[''a.jpg'']"
      and lc = numericBaseCompare and ?c1.0 = 10 and ?c2.0 = 11 and ?c3.0 = 12 and ?c4.0 = 13]
  from conjunct1[OF t2] obtain ms where ms:
    "\<forall>ns'. length ns' = length [''a.jpg''] \<and> assigns_in_order 20 (set []) ns' \<longrightarrow> ns' = ms"
    "(\<forall>(f, n)\<in>set (zip [''a.jpg''] ms). \<not> exists_name ?dir2 (?target f n))
         \<longrightarrow> renamePairs ?final2 = map2 (\<lambda>f n. (f, ?target f n)) [''a.jpg''] ms"
    by (elim exE conjE) (rule that)
  have "length [20::nat] = length [''a.jpg'']" by simp
  with spec2 ms(1) have "[20] = ms" by blast
  then have eq2: "ms = [20]" by (rule sym)
  have c2: "renamePairs ?final2 = [(''a.jpg'', ''20.jpg'')]"
    using ms(2) free2 unfolding eq2 by (simp add: tg2)
  from order b spec c d e res2 spec2 c2 show ?thesis by (intro conjI)
qed

text \<open>
  The claim C2 as it was stated gives every candidate the first cursor value that is
  not reserved. With a subdirectory \<open>20.jpg\<close>, the floor 20 and nothing reserved, the
  candidate \<open>IMG_A.jpg\<close> is not given 20, the first such value, nor any other number.
\<close>

theorem allocator_assignment_counterexample:
  "renamePairs (allocLoop script_config [(''20.jpg'', Directory, 0::nat)]
      \<lparr>nextNum = 20, reservedNumbers = [], renamePairs = []\<rparr> [''IMG_A.jpg'']) = []
   \<and> skipReserved [] 20 = 20"
  by code_simp

section \<open>The order of the manifest\<close>

lemma insert_cmp_stable:
  "filter (\<lambda>z. snd z = k) (insert_cmp (\<lambda>a b. int (snd a) - int (snd b)) x ys)
     = (if snd x = k then x # filter (\<lambda>z. snd z = k) ys else filter (\<lambda>z. snd z = k) ys)"
  by (induction ys) auto

lemma sort_cmp_stable:
  "filter (\<lambda>z. snd z = k) (sort_cmp (\<lambda>a b. int (snd a) - int (snd b)) xs)
     = filter (\<lambda>z. snd z = (k::nat)) xs"
  by (induction xs) (simp_all add: insert_cmp_stable)

lemma sorted_by_number:
  "sorted (map snd (sort_cmp (\<lambda>a b. int (snd a) - int (snd b)) (xs :: ('a \<times> nat) list)))"
proof -
  have "sorted_wrt (\<lambda>a b. int (snd a) - int (snd b) \<le> 0)
      (sort_cmp (\<lambda>a b. int (snd a) - int (snd b)) xs)"
    by (rule sorted_sort_cmp) auto
  then have "sorted_wrt (\<lambda>a b. snd a \<le> snd b) (sort_cmp (\<lambda>a b. int (snd a) - int (snd b)) xs)"
    by (rule sorted_wrt_mono_rel[rotated]) simp
  then show ?thesis by (simp add: sorted_map)
qed

lemma numericBaseCompare_le: "(numericBaseCompare a b \<le> 0) = (collationKey None a \<le> collationKey None b)"
  by (auto simp: numericBaseCompare_def)

text \<open>
  C6. The manifest lists every file of the listing once, each with the constant label:
  first the names that are all digits, in ascending order of their number, names of
  equal number in the order of the listing; then the other names, sorted by the
  collation whenever the collation orders consistently. A listing of \<open>1.png\<close>,
  \<open>3.jpg\<close> and \<open>20.jpg\<close>, in any order, gives the manifest order \<open>1.png\<close>,
  \<open>3.jpg\<close>, \<open>20.jpg\<close>.
\<close>

theorem manifest_order:
  "(\<exists>nums others.
      map src (buildPhotoStream lc files) = map srcOf (nums @ others)
      \<and> (\<forall>i\<in>set (buildPhotoStream lc files). label i = LABEL)
      \<and> mset nums = mset (filter (\<lambda>f. parseLeadingNumber f \<noteq> None) files)
      \<and> mset others = mset (filter (\<lambda>f. parseLeadingNumber f = None) files)
      \<and> sorted (map (\<lambda>f. the (parseLeadingNumber f)) nums)
      \<and> (\<forall>k. filter (\<lambda>f. parseLeadingNumber f = Some k) nums
              = filter (\<lambda>f. parseLeadingNumber f = Some k) files)
      \<and> others = sort_cmp (naturalSort lc) (filter (\<lambda>f. parseLeadingNumber f = None) files)
      \<and> ((\<forall>a b. lc a b \<le> 0 \<or> lc b a \<le> 0) \<and> (\<forall>a b c. lc a b \<le> 0 \<and> lc b c \<le> 0 \<longrightarrow> lc a c \<le> 0)
           \<longrightarrow> sorted_wrt (\<lambda>a b. lc a b \<le> 0) others))
   \<and> (\<forall>listing\<in>set [[''1.png'', ''3.jpg'', ''20.jpg''], [''1.png'', ''20.jpg'', ''3.jpg''],
                       [''3.jpg'', ''1.png'', ''20.jpg''], [''3.jpg'', ''20.jpg'', ''1.png''],
                       [''20.jpg'', ''1.png'', ''3.jpg''], [''20.jpg'', ''3.jpg'', ''1.png'']].
         map src (buildPhotoStream lc listing) = map srcOf [''1.png'', ''3.jpg'', ''20.jpg''])"
proof
  let ?numbered = "map (\<lambda>f. (f, the (parseLeadingNumber f))) (filter (\<lambda>f. parseLeadingNumber f \<noteq> None) files)"
  let ?sorted = "sort_cmp (\<lambda>a b. int (snd a) - int (snd b)) ?numbered"
  let ?nums = "map fst ?sorted"
  let ?others = "sort_cmp (naturalSort lc) (filter (\<lambda>f. parseLeadingNumber f = None) files)"
  have pairs: "\<forall>z\<in>set ?sorted. parseLeadingNumber (fst z) \<noteq> None \<and> snd z = the (parseLeadingNumber (fst z))"
    by (auto simp: set_sort_cmp)
  have a: "map src (buildPhotoStream lc files) = map srcOf (?nums @ ?others)"
    by (rule buildPhotoStream_src)
  have b: "\<forall>i\<in>set (buildPhotoStream lc files). label i = LABEL"
    by (auto simp: buildPhotoStream_def Let_def)
  have "mset ?nums = image_mset fst (mset ?sorted)" by simp
  also have "\<dots> = image_mset fst (mset ?numbered)" by (simp only: mset_sort_cmp)
  also have "\<dots> = mset (filter (\<lambda>f. parseLeadingNumber f \<noteq> None) files)"
    by (simp add: multiset.map_comp comp_def)
  finally have c: "mset ?nums = mset (filter (\<lambda>f. parseLeadingNumber f \<noteq> None) files)" .
  have d: "mset ?others = mset (filter (\<lambda>f. parseLeadingNumber f = None) files)"
    by (rule mset_sort_cmp)
  have "map (\<lambda>f. the (parseLeadingNumber f)) ?nums = map (\<lambda>z. the (parseLeadingNumber (fst z))) ?sorted"
    by (simp only: map_map comp_def)
  also have "\<dots> = map snd ?sorted"
  proof (rule map_cong[OF refl])
    fix z assume "z \<in> set ?sorted"
    with pairs have "snd z = the (parseLeadingNumber (fst z))" by blast
    then show "the (parseLeadingNumber (fst z)) = snd z" by (rule sym)
  qed
  finally have "map (\<lambda>f. the (parseLeadingNumber f)) ?nums = map snd ?sorted" .
  then have e: "sorted (map (\<lambda>f. the (parseLeadingNumber f)) ?nums)"
    by (simp only: sorted_by_number)
  have f: "filter (\<lambda>f. parseLeadingNumber f = Some k) ?nums
      = filter (\<lambda>f. parseLeadingNumber f = Some k) files" for k
  proof -
    have "filter (\<lambda>f. parseLeadingNumber f = Some k) ?nums
        = map fst (filter (\<lambda>z. parseLeadingNumber (fst z) = Some k) ?sorted)"
      by (simp add: filter_map comp_def)
    also have "filter (\<lambda>z. parseLeadingNumber (fst z) = Some k) ?sorted = filter (\<lambda>z. snd z = k) ?sorted"
    proof (rule filter_cong[OF refl])
      fix z assume "z \<in> set ?sorted"
      with pairs have "parseLeadingNumber (fst z) \<noteq> None" "snd z = the (parseLeadingNumber (fst z))"
        by blast+
      then show "(parseLeadingNumber (fst z) = Some k) = (snd z = k)" by auto
    qed
    also have "\<dots> = filter (\<lambda>z. snd z = k) ?numbered" by (rule sort_cmp_stable)
    also have "map fst \<dots> = filter (\<lambda>f. parseLeadingNumber f = Some k) files"
      by (induction files) auto
    finally show ?thesis .
  qed
  have g: "sorted_wrt (\<lambda>a b. lc a b \<le> 0) ?others"
    if "(\<forall>a b. lc a b \<le> 0 \<or> lc b a \<le> 0) \<and> (\<forall>a b c. lc a b \<le> 0 \<and> lc b c \<le> 0 \<longrightarrow> lc a c \<le> 0)"
  proof -
    from that have tot: "lc a b \<le> 0 \<or> lc b a \<le> 0" for a b by blast
    from that have tr: "lc a b \<le> 0 \<Longrightarrow> lc b c \<le> 0 \<Longrightarrow> lc a c \<le> 0" for a b c by blast
    have "sorted_wrt (\<lambda>a b. naturalSort lc a b \<le> 0) ?others"
    proof (rule sorted_sort_cmp)
      fix a b show "naturalSort lc a b \<le> 0 \<or> naturalSort lc b a \<le> 0"
        unfolding naturalSort_def by (rule tot)
    next
      fix a b c assume "naturalSort lc a b \<le> 0" "naturalSort lc b c \<le> 0"
      then show "naturalSort lc a c \<le> 0" unfolding naturalSort_def by (rule tr)
    qed
    then show ?thesis unfolding naturalSort_def .
  qed
  show "\<exists>nums others.
      map src (buildPhotoStream lc files) = map srcOf (nums @ others)
      \<and> (\<forall>i\<in>set (buildPhotoStream lc files). label i = LABEL)
      \<and> mset nums = mset (filter (\<lambda>f. parseLeadingNumber f \<noteq> None) files)
      \<and> mset others = mset (filter (\<lambda>f. parseLeadingNumber f = None) files)
      \<and> sorted (map (\<lambda>f. the (parseLeadingNumber f)) nums)
      \<and> (\<forall>k. filter (\<lambda>f. parseLeadingNumber f = Some k) nums
              = filter (\<lambda>f. parseLeadingNumber f = Some k) files)
      \<and> others = sort_cmp (naturalSort lc) (filter (\<lambda>f. parseLeadingNumber f = None) files)
      \<and> ((\<forall>a b. lc a b \<le> 0 \<or> lc b a \<le> 0) \<and> (\<forall>a b c. lc a b \<le> 0 \<and> lc b c \<le> 0 \<longrightarrow> lc a c \<le> 0)
           \<longrightarrow> sorted_wrt (\<lambda>a b. lc a b \<le> 0) others)"
  proof (rule exI[of _ ?nums], rule exI[of _ ?others], intro conjI allI impI)
    show "map src (buildPhotoStream lc files) = map srcOf (?nums @ ?others)" by (rule a)
    show "\<forall>i\<in>set (buildPhotoStream lc files). label i = LABEL" by (rule b)
    show "mset ?nums = mset (filter (\<lambda>f. parseLeadingNumber f \<noteq> None) files)" by (rule c)
    show "mset ?others = mset (filter (\<lambda>f. parseLeadingNumber f = None) files)" by (rule d)
    show "sorted (map (\<lambda>f. the (parseLeadingNumber f)) ?nums)" by (rule e)
    show "filter (\<lambda>f. parseLeadingNumber f = Some k) ?nums
        = filter (\<lambda>f. parseLeadingNumber f = Some k) files" for k by (rule f)
    show "?others = ?others" ..
    show "sorted_wrt (\<lambda>a b. lc a b \<le> 0) ?others"
      if "(\<forall>a b. lc a b \<le> 0 \<or> lc b a \<le> 0) \<and> (\<forall>a b c. lc a b \<le> 0 \<and> lc b c \<le> 0 \<longrightarrow> lc a c \<le> 0)"
      using that by (rule g)
  qed
next
  have p: "parseLeadingNumber ''1.png'' = Some 1" "parseLeadingNumber ''3.jpg'' = Some 3"
    "parseLeadingNumber ''20.jpg'' = Some 20"
    by code_simp+
  show "\<forall>listing\<in>set [[''1.png'', ''3.jpg'', ''20.jpg''], [''1.png'', ''20.jpg'', ''3.jpg''],
                       [''3.jpg'', ''1.png'', ''20.jpg''], [''3.jpg'', ''20.jpg'', ''1.png''],
                       [''20.jpg'', ''1.png'', ''3.jpg''], [''20.jpg'', ''3.jpg'', ''1.png'']].
         map src (buildPhotoStream lc listing) = map srcOf [''1.png'', ''3.jpg'', ''20.jpg'']"
    unfolding Ball_set list.pred_inject
    by (intro conjI TrueI) (simp_all only: buildPhotoStream_src, simp_all add: p)
qed

text \<open>
  The collation \<open>numericBaseCompare\<close> orders consistently, as it compares keys of a
  linear order; with it \<open>file10.jpg\<close> comes after \<open>file9.jpg\<close>.
\<close>

theorem manifest_order_witness:
  "(\<forall>a b. (numericBaseCompare a b \<le> 0) = (collationKey None a \<le> collationKey None b))
   \<and> map src (buildPhotoStream numericBaseCompare [''20.jpg'', ''3.jpg'', ''1.png''])
       = map srcOf [''1.png'', ''3.jpg'', ''20.jpg'']
   \<and> sorted_wrt (\<lambda>a b. numericBaseCompare a b \<le> 0)
       (sort_cmp (naturalSort numericBaseCompare)
          (filter (\<lambda>f. parseLeadingNumber f = None) [''file10.jpg'', ''3.jpg'', ''file9.jpg'', ''File2.jpg'']))
   \<and> map src (buildPhotoStream numericBaseCompare [''file10.jpg'', ''3.jpg'', ''file9.jpg'', ''File2.jpg''])
       = map srcOf [''3.jpg'', ''File2.jpg'', ''file9.jpg'', ''file10.jpg'']"
proof -
  have le: "(numericBaseCompare a b \<le> 0) = (collationKey None a \<le> collationKey None b)" for a b
    by (rule numericBaseCompare_le)
  have tot: "\<forall>a b. numericBaseCompare a b \<le> 0 \<or> numericBaseCompare b a \<le> 0"
    unfolding le by auto
  have tr: "\<forall>a b c. numericBaseCompare a b \<le> 0 \<and> numericBaseCompare b c \<le> 0 \<longrightarrow> numericBaseCompare a c \<le> 0"
    unfolding le by auto
  note t = manifest_order[of numericBaseCompare "[''file10.jpg'', ''3.jpg'', ''file9.jpg'', ''File2.jpg'']"]
  from t have "list_all (\<lambda>l. map src (buildPhotoStream numericBaseCompare l) = map srcOf [''1.png'', ''3.jpg'', ''20.jpg''])
      [[''1.png'', ''3.jpg'', ''20.jpg''], [''1.png'', ''20.jpg'', ''3.jpg''],
       [''3.jpg'', ''1.png'', ''20.jpg''], [''3.jpg'', ''20.jpg'', ''1.png''],
       [''20.jpg'', ''1.png'', ''3.jpg''], [''20.jpg'', ''3.jpg'', ''1.png'']]"
    unfolding Ball_set by (rule conjunct2)
  then have ex: "map src (buildPhotoStream numericBaseCompare [''20.jpg'', ''3.jpg'', ''1.png''])
       = map srcOf [''1.png'', ''3.jpg'', ''20.jpg'']"
    unfolding list.pred_inject by (elim conjE)
  from t obtain others where
    o: "others = sort_cmp (naturalSort numericBaseCompare)
          (filter (\<lambda>f. parseLeadingNumber f = None) [''file10.jpg'', ''3.jpg'', ''file9.jpg'', ''File2.jpg''])"
    and i: "(\<forall>a b. numericBaseCompare a b \<le> 0 \<or> numericBaseCompare b a \<le> 0)
        \<and> (\<forall>a b c. numericBaseCompare a b \<le> 0 \<and> numericBaseCompare b c \<le> 0 \<longrightarrow> numericBaseCompare a c \<le> 0)
        \<longrightarrow> sorted_wrt (\<lambda>a b. numericBaseCompare a b \<le> 0) others"
    by (elim conjE exE) (rule that)
  from i tot tr have "sorted_wrt (\<lambda>a b. numericBaseCompare a b \<le> 0) others" by (elim impE) (rule conjI)
  then have so: "sorted_wrt (\<lambda>a b. numericBaseCompare a b \<le> 0)
       (sort_cmp (naturalSort numericBaseCompare)
          (filter (\<lambda>f. parseLeadingNumber f = None) [''file10.jpg'', ''3.jpg'', ''file9.jpg'', ''File2.jpg'']))"
    unfolding o .
  have ev: "map src (buildPhotoStream numericBaseCompare [''file10.jpg'', ''3.jpg'', ''file9.jpg'', ''File2.jpg''])
       = map srcOf [''3.jpg'', ''File2.jpg'', ''file9.jpg'', ''file10.jpg'']"
    by code_simp
  from le have le': "\<forall>a b. (numericBaseCompare a b \<le> 0) = (collationKey None a \<le> collationKey None b)"
    by blast
  show ?thesis using le' ex so ev by (intro conjI)
qed

section \<open>The two phases of a batch\<close>

lemma find_name_None: "(find (\<lambda>d. fst d = a) dir = None) = (map_of dir a = None)"
  by (induction dir) auto

lemma map_of_renamed:
  assumes "a \<noteq> b"
  shows "map_of (map (\<lambda>d. if fst d = a then (b, snd d) else d) (filter (\<lambda>d. fst d \<noteq> b) dir))
     = (map_of dir)(a := None, b := map_of dir a)"
  using assms by (induction dir) (auto simp: fun_eq_iff)

lemma renameSync_map_of:
  assumes "renameSync dir a b = Inr dir'" "a \<noteq> b"
  shows "map_of dir' = (map_of dir)(a := None, b := map_of dir a)" and "map_of dir a \<noteq> None"
proof -
  from renameSync_Inr[OF assms(1)] assms(2)
  have "dir' = map (\<lambda>d. if fst d = a then (b, snd d) else d) (filter (\<lambda>d. fst d \<noteq> b) dir)"
    by simp
  then show "map_of dir' = (map_of dir)(a := None, b := map_of dir a)"
    by (simp only: map_of_renamed[OF assms(2)])
  show "map_of dir a \<noteq> None"
  proof
    assume "map_of dir a = None"
    then have "find (\<lambda>d. fst d = a) dir = None" by (simp only: find_name_None)
    with assms(1) show False by (simp add: renameSync_def)
  qed
qed

lemma renameAll_other:
  assumes "renameAll dir rs = Inr dir'" "n \<notin> fst ` set rs" "n \<notin> snd ` set rs"
  shows "map_of dir' n = map_of dir n"
  using assms
proof (induction rs arbitrary: dir)
  case Nil
  then show ?case by simp
next
  case (Cons r rs)
  obtain a b where r: "r = (a, b)" by (cases r)
  from Cons.prems(1) obtain dir1 where s: "renameSync dir a b = Inr dir1"
    and rest: "renameAll dir1 rs = Inr dir'"
    by (auto simp: r split: sum.splits)
  from Cons.prems(2,3) have n: "n \<noteq> a" "n \<noteq> b" "n \<notin> fst ` set rs" "n \<notin> snd ` set rs"
    by (auto simp: r)
  have "map_of dir1 n = map_of dir n"
  proof (cases "a = b")
    case True
    with renameSync_Inr[OF s] show ?thesis by simp
  next
    case False
    from renameSync_map_of(1)[OF s False] n(1,2) show ?thesis by simp
  qed
  with Cons.IH[OF rest n(3,4)] show ?case by simp
qed

lemma renameAll_not_written:
  assumes "renameAll dir rs = Inr dir'" "n \<notin> snd ` set rs"
  shows "map_of dir' n = None \<or> map_of dir' n = map_of dir n"
  using assms
proof (induction rs arbitrary: dir)
  case Nil
  then show ?case by simp
next
  case (Cons r rs)
  obtain a b where r: "r = (a, b)" by (cases r)
  from Cons.prems(1) obtain dir1 where s: "renameSync dir a b = Inr dir1"
    and rest: "renameAll dir1 rs = Inr dir'"
    by (auto simp: r split: sum.splits)
  from Cons.prems(2) have n: "n \<noteq> b" "n \<notin> snd ` set rs" by (auto simp: r)
  have "map_of dir1 n = None \<or> map_of dir1 n = map_of dir n"
  proof (cases "a = b")
    case True
    with renameSync_Inr[OF s] show ?thesis by simp
  next
    case False
    from renameSync_map_of(1)[OF s False] n(1) show ?thesis by simp
  qed
  with Cons.IH[OF rest n(2)] show ?case by auto
qed

lemma renameAll_moved:
  assumes "renameAll dir rs = Inr dir'" "distinct (map fst rs)" "distinct (map snd rs)"
    and "fst ` set rs \<inter> snd ` set rs = {}" and "(a, b) \<in> set rs"
  shows "map_of dir' a = None \<and> map_of dir' b = map_of dir a \<and> map_of dir a \<noteq> None"
  using assms
proof (induction rs arbitrary: dir)
  case Nil
  then show ?case by simp
next
  case (Cons r rs)
  obtain a0 b0 where r: "r = (a0, b0)" by (cases r)
  from Cons.prems(1) obtain dir1 where s: "renameSync dir a0 b0 = Inr dir1"
    and rest: "renameAll dir1 rs = Inr dir'"
    by (auto simp: r split: sum.splits)
  from Cons.prems(4) have ne: "a0 \<noteq> b0" by (auto simp: r)
  note m = renameSync_map_of[OF s ne]
  from Cons.prems(2,3,4) have d: "a0 \<notin> fst ` set rs" "b0 \<notin> snd ` set rs"
    "a0 \<notin> snd ` set rs" "b0 \<notin> fst ` set rs"
    "distinct (map fst rs)" "distinct (map snd rs)" "fst ` set rs \<inter> snd ` set rs = {}"
    by (auto simp: r)
  show ?case
  proof (cases "(a, b) = (a0, b0)")
    case True
    from renameAll_other[OF rest d(1,3)] renameAll_other[OF rest d(4,2)] m True ne
    show ?thesis by simp
  next
    case False
    have mem: "(a, b) \<in> set rs"
    proof (cases "a = a0")
      case True
      with False Cons.prems(5) have "(a0, b) \<in> set rs" by (simp add: r)
      then have "a0 \<in> fst ` set rs" by (rule rev_image_eqI) simp
      with d(1) show ?thesis by contradiction
    next
      case False
      with Cons.prems(5) show ?thesis by (simp add: r)
    qed
    from Cons.IH[OF rest d(5,6,7) mem]
    have ih: "map_of dir' a = None" "map_of dir' b = map_of dir1 a" "map_of dir1 a \<noteq> None"
      by simp_all
    from mem d(1,4) have "a \<noteq> a0" "a \<noteq> b0" by (auto simp: image_iff)
    with m(1) have "map_of dir1 a = map_of dir a" by simp
    with ih show ?thesis by simp
  qed
qed

lemma first_split:
  assumes "xs @ c # ys = xs' @ c # ys'" "c \<notin> set xs" "c \<notin> set xs'"
  shows "xs = xs' \<and> ys = ys'"
  using assms
proof (induction xs arbitrary: xs')
  case Nil
  then show ?case by (cases xs') auto
next
  case (Cons x xs)
  then show ?case by (cases xs') auto
qed

lemma String_num_no_underscore: "CHR ''_'' \<notin> set (String_num n)"
proof
  assume "CHR ''_'' \<in> set (String_num n)"
  with String_num_digits[of n] have "isDigit (CHR ''_'')" by (simp add: list_all_iff)
  then show False by (simp add: isDigit_def)
qed

lemma hex_no_underscore: "CHR ''_'' \<notin> set (map hexDigit rnd)"
proof
  assume "CHR ''_'' \<in> set (map hexDigit rnd)"
  then obtain d where "hexDigit d = CHR ''_''" by auto
  moreover have "hexDigit d \<in> set ''0123456789abcdef''"
    unfolding hexDigit_def by (rule nth_mem) simp
  ultimately show False by simp
qed

lemma toTempName_inj:
  assumes "toTempName now rnd original = toTempName now' rnd' original'"
  shows "original = original'"
proof -
  from assms have "String_num now @ CHR ''_'' # (CHR ''_'' # map hexDigit rnd @ ''__'' @ original)
      = String_num now' @ CHR ''_'' # (CHR ''_'' # map hexDigit rnd' @ ''__'' @ original')"
    by (simp add: toTempName_def)
  from first_split[OF this String_num_no_underscore String_num_no_underscore]
  have "map hexDigit rnd @ CHR ''_'' # (CHR ''_'' # original)
      = map hexDigit rnd' @ CHR ''_'' # (CHR ''_'' # original')"
    by simp
  from first_split[OF this hex_no_underscore hex_no_underscore]
  show ?thesis by simp
qed

lemma tmpPairs_distinct_tmp:
  assumes "distinct (map fst pairs)"
  shows "distinct (map (\<lambda>p. fst (snd p)) (tmpPairs draws pairs))"
proof -
  let ?tps = "tmpPairs draws pairs"
  have df: "distinct (map fst ?tps)" using assms by (simp only: tmpPairs_from)
  then have dt: "distinct ?tps" by (simp add: distinct_map)
  have "inj_on (\<lambda>p. fst (snd p)) (set ?tps)"
  proof (rule inj_onI)
    fix p q assume p: "p \<in> set ?tps" and q: "q \<in> set ?tps" and e: "fst (snd p) = fst (snd q)"
    from tmpPairs_tmp[OF p] obtain n r where tp: "fst (snd p) = toTempName n r (fst p)" by blast
    from tmpPairs_tmp[OF q] obtain n' r' where tq: "fst (snd q) = toTempName n' r' (fst q)" by blast
    from e have "toTempName n r (fst p) = toTempName n' r' (fst q)" unfolding tp tq .
    then have "fst p = fst q" by (rule toTempName_inj)
    with df p q show "p = q" by (metis distinct_map inj_onD)
  qed
  with dt show ?thesis by (simp add: distinct_map)
qed

lemma renameAll_append:
  assumes "renameAll dir (xs @ ys) = Inr dir'"
  shows "\<exists>dir1. renameAll dir xs = Inr dir1 \<and> renameAll dir1 ys = Inr dir'"
  using assms
proof (induction xs arbitrary: dir)
  case Nil
  then show ?case by simp
next
  case (Cons x xs)
  obtain a b where x: "x = (a, b)" by (cases x)
  from Cons.prems obtain d0 where s: "renameSync dir a b = Inr d0"
    and rest: "renameAll d0 (xs @ ys) = Inr dir'"
    by (auto simp: x split: sum.splits)
  from Cons.IH[OF rest] s show ?case by (simp add: x)
qed

lemma renameAll_sources_distinct:
  assumes "renameAll dir rs = Inr dir'" "fst ` set rs \<inter> snd ` set rs = {}"
  shows "distinct (map fst rs)"
  using assms
proof (induction rs arbitrary: dir)
  case Nil
  then show ?case by simp
next
  case (Cons r rs)
  obtain a b where r: "r = (a, b)" by (cases r)
  from Cons.prems(1) obtain dir1 where s: "renameSync dir a b = Inr dir1"
    and rest: "renameAll dir1 rs = Inr dir'"
    by (auto simp: r split: sum.splits)
  from Cons.prems(2) have ne: "a \<noteq> b" and aw: "a \<notin> snd ` set rs"
    and sub: "fst ` set rs \<inter> snd ` set rs = {}"
    by (auto simp: r)
  have gone: "map_of dir1 a = None"
    using renameSync_map_of(1)[OF s ne] ne by simp
  have "a \<notin> fst ` set rs"
  proof
    assume "a \<in> fst ` set rs"
    then obtain b' where "(a, b') \<in> set rs" by auto
    then obtain pre post where split: "rs = pre @ (a, b') # post"
      by (auto dest: split_list)
    from renameAll_append[OF rest[unfolded split]] obtain d2 where
      p: "renameAll dir1 pre = Inr d2" and q: "renameAll d2 ((a, b') # post) = Inr dir'"
      by blast
    from aw split have "a \<notin> snd ` set pre" by auto
    from renameAll_not_written[OF p this] gone have "map_of d2 a = None" by auto
    then have "find (\<lambda>d. fst d = a) d2 = None" by (simp only: find_name_None)
    then have "renameSync d2 a b' = Inl ENOENT" by (simp add: renameSync_def)
    with q show False by simp
  qed
  with Cons.IH[OF rest sub] show ?case by (simp add: r)
qed

lemma renameSync_found:
  assumes "map_of dir a \<noteq> None"
  shows "renameSync dir a b \<noteq> Inl ENOENT"
proof -
  from assms find_name_None[of a dir] have "find (\<lambda>d. fst d = a) dir \<noteq> None" by simp
  then obtain src where "find (\<lambda>d. fst d = a) dir = Some src" by blast
  then show ?thesis by (simp add: renameSync_def Let_def split: option.splits)
qed

text \<open>
  C4. \<open>renameSafely\<close> first renames every source to its temporary name, then every
  temporary name to its target. Take a batch whose temporary
  names are neither sources nor targets of the batch, and let phase 1 succeed. Then
  the sources are distinct and so are the temporary names; after phase 1 no source name is occupied and every
  source sits under its temporary name; and at every rename of phase 2 the files
  still waiting, the one being renamed among them, are intact under their temporary
  names, so the rename finds its source, and a target that is the source name of a
  pair of the batch is free unless an earlier rename of phase 2 had the same target.
\<close>

theorem two_phase_rename:
  fixes draws :: "nat \<Rightarrow> nat \<times> nat list" and dir dir1 :: "'c directory"
  defines "tmp \<equiv> (\<lambda>p :: string \<times> string \<times> string. fst (snd p))"
    and "target \<equiv> (\<lambda>p :: string \<times> string \<times> string. snd (snd p))"
  assumes fresh: "\<forall>p\<in>set (tmpPairs draws pairs). tmp p \<notin> fst ` set pairs \<and> tmp p \<notin> snd ` set pairs"
    and phase1: "renameAll dir (map (\<lambda>p. (fst p, tmp p)) (tmpPairs draws pairs)) = Inr dir1"
  shows "distinct (map fst pairs)
     \<and> distinct (map tmp (tmpPairs draws pairs))
     \<and> (\<forall>p\<in>set (tmpPairs draws pairs).
           map_of dir (fst p) \<noteq> None \<and> map_of dir1 (fst p) = None
           \<and> map_of dir1 (tmp p) = map_of dir (fst p))
     \<and> renameSafely draws dir pairs
         = renameAll dir1 (map (\<lambda>p. (tmp p, target p)) (tmpPairs draws pairs))
     \<and> (\<forall>committed p rest d.
           tmpPairs draws pairs = committed @ p # rest
           \<and> renameAll dir1 (map (\<lambda>p. (tmp p, target p)) committed) = Inr d \<longrightarrow>
             (\<forall>q\<in>set (p # rest). map_of d (tmp q) = map_of dir (fst q))
             \<and> renameSync d (tmp p) (target p) \<noteq> Inl ENOENT
             \<and> (target p \<in> fst ` set pairs \<longrightarrow>
                  map_of d (target p) = None \<or> target p \<in> target ` set committed))"
proof -
  let ?tps = "tmpPairs draws pairs"
  let ?r1 = "map (\<lambda>p. (fst p, tmp p)) ?tps"
  have froms: "fst ` set ?tps = fst ` set pairs"
    using tmpPairs_from[of draws pairs] by (metis set_map)
  have tos: "target ` set ?tps = snd ` set pairs"
    using tmpPairs_to[of draws pairs] unfolding target_def by (metis set_map)
  have pre: "fst ` set ?r1 \<inter> snd ` set ?r1 = {}"
  proof -
    have "fst ` set ?r1 = fst ` set pairs" using froms by (simp add: image_image)
    moreover have "snd ` set ?r1 = tmp ` set ?tps" by (simp add: image_image)
    moreover have "fst ` set pairs \<inter> tmp ` set ?tps = {}"
    proof (rule ccontr)
      assume "fst ` set pairs \<inter> tmp ` set ?tps \<noteq> {}"
      then obtain x where x: "x \<in> fst ` set pairs" "x \<in> tmp ` set ?tps" by blast
      from x(2) obtain p where "p \<in> set ?tps" "x = tmp p" by (rule imageE)
      with fresh x(1) show False by auto
    qed
    ultimately show ?thesis by (simp only:)
  qed
  have "distinct (map fst ?r1)"
    using phase1 pre by (rule renameAll_sources_distinct)
  then have sources: "distinct (map fst pairs)"
    by (simp add: comp_def tmpPairs_from)
  have one: "distinct (map tmp ?tps)"
    unfolding tmp_def using sources by (rule tmpPairs_distinct_tmp)
  have d1: "distinct (map fst ?r1)"
    using sources by (simp add: comp_def tmpPairs_from)
  have d2: "distinct (map snd ?r1)"
    using one by (simp add: comp_def)
  note d3 = pre
  have two: "map_of dir (fst p) \<noteq> None \<and> map_of dir1 (fst p) = None
      \<and> map_of dir1 (tmp p) = map_of dir (fst p)" if "p \<in> set ?tps" for p
  proof -
    from that have "(fst p, tmp p) \<in> set ?r1" by (rule rev_image_eqI[where x=p, simplified] | simp)+
    from renameAll_moved[OF phase1 d1 d2 d3 this] show ?thesis by simp
  qed
  have three: "renameSafely draws dir pairs = renameAll dir1 (map (\<lambda>p. (tmp p, target p)) ?tps)"
    using phase1 unfolding tmp_def target_def by (simp add: renameSafely_def Let_def)
  have four: "(\<forall>q\<in>set (p # rest). map_of d (tmp q) = map_of dir (fst q))
             \<and> renameSync d (tmp p) (target p) \<noteq> Inl ENOENT
             \<and> (target p \<in> fst ` set pairs \<longrightarrow>
                  map_of d (target p) = None \<or> target p \<in> target ` set committed)"
    if split: "?tps = committed @ p # rest"
      and run: "renameAll dir1 (map (\<lambda>p. (tmp p, target p)) committed) = Inr d"
    for committed p rest d
  proof -
    let ?r2 = "map (\<lambda>p. (tmp p, target p)) committed"
    have f2: "fst ` set ?r2 = tmp ` set committed" and s2: "snd ` set ?r2 = target ` set committed"
      by (simp_all add: image_image)
    have waiting: "map_of d (tmp q) = map_of dir (fst q)" if q: "q \<in> set (p # rest)" for q
    proof -
      from q split have qt: "q \<in> set ?tps" by auto
      from one split have "distinct (map tmp committed @ map tmp (p # rest))" by simp
      with q have a: "tmp q \<notin> tmp ` set committed" by auto
      have sub: "target ` set committed \<subseteq> snd ` set pairs"
        using tos split by auto
      from fresh qt have nt: "tmp q \<notin> snd ` set pairs" by simp
      have b: "tmp q \<notin> target ` set committed"
      proof
        assume "tmp q \<in> target ` set committed"
        with sub have "tmp q \<in> snd ` set pairs" by (rule subsetD)
        with nt show False by contradiction
      qed
      from renameAll_other[OF run] a b have "map_of d (tmp q) = map_of dir1 (tmp q)"
        unfolding f2 s2 by simp
      with two[OF qt] show ?thesis by simp
    qed
    have pt: "p \<in> set ?tps" using split by simp
    from waiting[of p] two[OF pt] have "map_of d (tmp p) \<noteq> None" by simp
    then have found: "renameSync d (tmp p) (target p) \<noteq> Inl ENOENT" by (rule renameSync_found)
    have free: "map_of d (target p) = None \<or> target p \<in> target ` set committed"
      if t: "target p \<in> fst ` set pairs"
    proof (cases "target p \<in> target ` set committed")
      case True
      then show ?thesis ..
    next
      case False
      from t froms have "target p \<in> fst ` set ?tps" by simp
      then obtain q where "q \<in> set ?tps" "fst q = target p" by (auto elim: imageE)
      with two[of q] have "map_of dir1 (target p) = None" by simp
      moreover from renameAll_not_written[OF run, of "target p"] False
      have "map_of d (target p) = None \<or> map_of d (target p) = map_of dir1 (target p)"
        unfolding s2 by simp
      ultimately show ?thesis by auto
    qed
    from waiting found free show ?thesis by blast
  qed
  from sources one two three four show ?thesis by blast
qed

text \<open>The batch that swaps \<open>a.jpg\<close> and \<open>b.jpg\<close>.\<close>

theorem two_phase_rename_witness:
  "tmpPairs (\<lambda>i. (5 + i, [10, 11])) [(''a.jpg'', ''b.jpg''), (''b.jpg'', ''a.jpg'')]
     = [(''a.jpg'', ''__tmp__5__ab__a.jpg'', ''b.jpg''), (''b.jpg'', ''__tmp__6__ab__b.jpg'', ''a.jpg'')]
   \<and> renameAll [(''a.jpg'', RegularFile, 10::nat), (''b.jpg'', RegularFile, 11)]
        [(''a.jpg'', ''__tmp__5__ab__a.jpg''), (''b.jpg'', ''__tmp__6__ab__b.jpg'')]
     = Inr [(''__tmp__5__ab__a.jpg'', RegularFile, 10), (''__tmp__6__ab__b.jpg'', RegularFile, 11)]
   \<and> renameSafely (\<lambda>i. (5 + i, [10, 11])) [(''a.jpg'', RegularFile, 10::nat), (''b.jpg'', RegularFile, 11)]
        [(''a.jpg'', ''b.jpg''), (''b.jpg'', ''a.jpg'')]
     = Inr [(''b.jpg'', RegularFile, 10), (''a.jpg'', RegularFile, 11)]"
proof -
  let ?draws = "\<lambda>i::nat. (5 + i, [10, 11::nat])"
  let ?dir = "[(''a.jpg'', RegularFile, 10::nat), (''b.jpg'', RegularFile, 11)]"
  let ?pairs = "[(''a.jpg'', ''b.jpg''), (''b.jpg'', ''a.jpg'')]"
  let ?dir1 = "[(''__tmp__5__ab__a.jpg'', RegularFile, 10::nat), (''__tmp__6__ab__b.jpg'', RegularFile, 11)]"
  have tps: "tmpPairs ?draws ?pairs
     = [(''a.jpg'', ''__tmp__5__ab__a.jpg'', ''b.jpg''), (''b.jpg'', ''__tmp__6__ab__b.jpg'', ''a.jpg'')]"
    by code_simp
  have p1: "renameAll ?dir [(''a.jpg'', ''__tmp__5__ab__a.jpg''), (''b.jpg'', ''__tmp__6__ab__b.jpg'')]
     = Inr ?dir1"
    by code_simp
  have fresh: "\<forall>p\<in>set (tmpPairs ?draws ?pairs).
      fst (snd p) \<notin> fst ` set ?pairs \<and> fst (snd p) \<notin> snd ` set ?pairs"
    unfolding tps by simp
  have phase1: "renameAll ?dir (map (\<lambda>p. (fst p, fst (snd p))) (tmpPairs ?draws ?pairs)) = Inr ?dir1"
    unfolding tps using p1 by simp
  from two_phase_rename[OF fresh phase1]
  have "renameSafely ?draws ?dir ?pairs
      = renameAll ?dir1 (map (\<lambda>p. (fst (snd p), snd (snd p))) (tmpPairs ?draws ?pairs))"
    by (elim conjE)
  also have "\<dots> = renameAll ?dir1 [(''__tmp__5__ab__a.jpg'', ''b.jpg''), (''__tmp__6__ab__b.jpg'', ''a.jpg'')]"
    unfolding tps by simp
  also have "\<dots> = Inr [(''b.jpg'', RegularFile, 10), (''a.jpg'', RegularFile, 11)]"
    by code_simp
  finally show ?thesis using tps p1 by (intro conjI)
qed

section \<open>The second run\<close>






























end
